theory Spec2Isabelle
  imports Main "HOL-Library.Word" "HOL-Library.Monad_Syntax"
begin

unbundle bit_operations_syntax

section \<open>Memory model\<close>

text \<open>
  The library stores every container in one untyped block of bytes.  A byte of a block is
  a \<open>cell\<close>: \<open>Some b\<close> once the program has stored \<open>b\<close> there, \<open>None\<close> while it still
  holds whatever the allocator left (an indeterminate value).  \<open>size_t\<close> is the 64-bit
  unsigned type of the usual LP64 targets; all arithmetic on it wraps.

  A computation of type \<open>'a option\<close> is \<open>None\<close> when the C program leaves defined
  behaviour (an access outside the block, a division by zero, a load of an indeterminate
  value by a catalogue function).  Messages passed to \<open>SUTLErrorHandler\<close> are collected
  in a list and returned with the result.  \<open>SHRN_MALLOC\<close> and \<open>SHRN_REALLOC\<close> are
  platform primitives; the model follows the executions in which they return memory.
\<close>

type_synonym size_t = "64 word"
type_synonym byte = "8 word"
type_synonym cell = "byte option"

definition SHRN_REALLOC :: "cell list \<Rightarrow> nat \<Rightarrow> cell list" where
  "SHRN_REALLOC m n = take n m @ replicate (n - length m) None"

text \<open>\<open>SHRN_MEMMOVE m dst src n\<close>: \<open>memmove\<close> of \<open>n\<close> bytes inside the block \<open>m\<close>.\<close>

definition SHRN_MEMMOVE :: "cell list \<Rightarrow> nat \<Rightarrow> nat \<Rightarrow> nat \<Rightarrow> cell list option" where
  "SHRN_MEMMOVE m dst src n =
     (if src + n \<le> length m \<and> dst + n \<le> length m
      then Some (take dst m @ take n (drop src m) @ drop (dst + n) m)
      else None)"

text \<open>\<open>SHRN_MEMCPY m dst src n\<close>: \<open>memcpy\<close> of the first \<open>n\<close> bytes readable at the
  source pointer (the list \<open>src\<close>) to offset \<open>dst\<close> of the block \<open>m\<close>.\<close>

definition SHRN_MEMCPY :: "cell list \<Rightarrow> nat \<Rightarrow> cell list \<Rightarrow> nat \<Rightarrow> cell list option" where
  "SHRN_MEMCPY m dst src n =
     (if n \<le> length src \<and> dst + n \<le> length m
      then Some (take dst m @ take n src @ drop (dst + n) m)
      else None)"

text \<open>A load of \<open>n\<close> bytes at offset \<open>off\<close> of a block.\<close>

definition load :: "cell list \<Rightarrow> nat \<Rightarrow> nat \<Rightarrow> cell list option" where
  "load m off n = (if off + n \<le> length m then Some (take n (drop off m)) else None)"

section \<open>Vector.h\<close>

text \<open>
  The block of a vector is \<open>[Size][Capacity][Elemsize][Data...]\<close>; the handle points at
  \<open>Data\<close>.  The three header words are the first three fields of the record, \<open>Data\<close> is
  every byte of the block after the header.
\<close>

record SUTLVector =
  SUTLVectorSize :: size_t
  SUTLVectorCapacity :: size_t
  SUTLVectorElemsize :: size_t
  Data :: "cell list"

definition SUTLVectorOffset :: "SUTLVector \<Rightarrow> size_t \<Rightarrow> nat" where
  "SUTLVectorOffset v i = unat (SUTLVectorElemsize v * i)"

definition SUTL_InternalVectorNew :: "size_t \<Rightarrow> SUTLVector" where
  "SUTL_InternalVectorNew elemsize =
     \<lparr>SUTLVectorSize = 0, SUTLVectorCapacity = 0, SUTLVectorElemsize = elemsize, Data = []\<rparr>"

definition SUTL_InternalVectorReserve ::
  "SUTLVector \<Rightarrow> size_t \<Rightarrow> (SUTLVector \<times> string list) option" where
  "SUTL_InternalVectorReserve v sz =
     (if sz < SUTLVectorSize v
      then Some (v, [''Can't reserve memory less than the amount of memory already in use.''])
      else let requiredSize = 8 * 3 + sz * SUTLVectorElemsize v in
        if unat requiredSize < 24 then None
        else Some (v\<lparr>Data := SHRN_REALLOC (Data v) (unat requiredSize - 24),
                     SUTLVectorCapacity := sz\<rparr>, []))"

definition SUTL_InternalVectorResize ::
  "SUTLVector \<Rightarrow> size_t \<Rightarrow> (SUTLVector \<times> string list) option" where
  "SUTL_InternalVectorResize v sz = do {
     (v1, e) \<leftarrow> (if SUTLVectorSize v < sz \<and> SUTLVectorCapacity v < sz
                 then SUTL_InternalVectorReserve v (sz + 2)
                 else Some (v, []));
     Some (v1\<lparr>SUTLVectorSize := sz\<rparr>, e)
   }"

text \<open>The result pointer is \<open>None\<close> for \<open>NULL\<close> and \<open>Some off\<close> for the address
  \<open>off\<close> bytes into \<open>Data\<close>.\<close>

definition SUTL_InternalVectorInsertN ::
  "SUTLVector \<Rightarrow> size_t \<Rightarrow> cell list \<Rightarrow> size_t \<Rightarrow> (nat option \<times> SUTLVector \<times> string list) option"
where
  "SUTL_InternalVectorInsertN v at ptr count =
     (if at > SUTLVectorSize v
      then Some (None, v, [''Insert index must be less than or equal to size.''])
      else do {
        let originalSize = SUTLVectorSize v;
        (v1, e) \<leftarrow> SUTL_InternalVectorResize v (originalSize + count);
        d1 \<leftarrow> (if at \<noteq> originalSize
                then SHRN_MEMMOVE (Data v1) (SUTLVectorOffset v1 (at + count)) (SUTLVectorOffset v1 at)
                       (unat ((originalSize - at) * SUTLVectorElemsize v1))
                else Some (Data v1));
        d2 \<leftarrow> SHRN_MEMCPY d1 (SUTLVectorOffset v1 at) ptr (unat (SUTLVectorElemsize v1 * count));
        Some (Some (SUTLVectorOffset v1 at), v1\<lparr>Data := d2\<rparr>, e)
      })"

text \<open>\<open>SUTL_InternalVectorEraseN\<close> returns early, with the message, when both
  \<open>at + count > size\<close> and \<open>at > size\<close> hold; when only the first holds, \<open>count\<close> becomes
  \<open>size - at\<close>.\<close>

definition SUTL_InternalVectorEraseN ::
  "SUTLVector \<Rightarrow> size_t \<Rightarrow> size_t \<Rightarrow> (SUTLVector \<times> string list) option" where
  "SUTL_InternalVectorEraseN v at count0 =
     (if at + count0 > SUTLVectorSize v \<and> at > SUTLVectorSize v
      then Some (v, [''Elements requested to be erased don't exist.''])
      else do {
        let count = (if at + count0 > SUTLVectorSize v then SUTLVectorSize v - at else count0);
        d \<leftarrow> (if at + count \<noteq> SUTLVectorSize v
               then SHRN_MEMMOVE (Data v) (SUTLVectorOffset v at) (SUTLVectorOffset v (at + count))
                      (unat ((SUTLVectorSize v - count - at) * SUTLVectorElemsize v))
               else Some (Data v));
        Some (v\<lparr>Data := d, SUTLVectorSize := SUTLVectorSize v - count\<rparr>, [])
      })"

text \<open>The macros of the public interface.\<close>

definition SUTLVectorInsert ::
  "SUTLVector \<Rightarrow> size_t \<Rightarrow> cell list \<Rightarrow> (nat option \<times> SUTLVector \<times> string list) option" where
  "SUTLVectorInsert v at elem = SUTL_InternalVectorInsertN v at elem 1"

definition SUTLVectorErase :: "SUTLVector \<Rightarrow> size_t \<Rightarrow> (SUTLVector \<times> string list) option" where
  "SUTLVectorErase v at = SUTL_InternalVectorEraseN v at 1"

definition SUTLVectorPushN ::
  "SUTLVector \<Rightarrow> cell list \<Rightarrow> size_t \<Rightarrow> (nat option \<times> SUTLVector \<times> string list) option" where
  "SUTLVectorPushN v ptr count = SUTL_InternalVectorInsertN v (SUTLVectorSize v) ptr count"

definition SUTLVectorPop :: "SUTLVector \<Rightarrow> (SUTLVector \<times> string list) option" where
  "SUTLVectorPop v = SUTLVectorErase v (SUTLVectorSize v - 1)"

definition SUTLVectorPopN :: "SUTLVector \<Rightarrow> size_t \<Rightarrow> (SUTLVector \<times> string list) option" where
  "SUTLVectorPopN v count = SUTL_InternalVectorEraseN v (SUTLVectorSize v - count) count"

section \<open>String.h\<close>

text \<open>A \<open>SUTLString\<close> is a vector of \<open>char\<close>.  \<open>c_literal\<close> is the memory of a C string
  literal (its bytes and the terminating zero); \<open>SHRN_STRLEN\<close> scans it for the zero.\<close>

definition c_literal :: "string \<Rightarrow> cell list" where
  "c_literal s = map (\<lambda>c. Some (of_char c)) s @ [Some 0]"

fun SHRN_STRLEN :: "cell list \<Rightarrow> nat option" where
  "SHRN_STRLEN [] = None"
| "SHRN_STRLEN (None # m) = None"
| "SHRN_STRLEN (Some b # m) = (if b = 0 then Some 0 else map_option Suc (SHRN_STRLEN m))"

definition SUTLStringNew :: "SUTLVector" where
  "SUTLStringNew = SUTL_InternalVectorNew 1"

definition SUTLStringAppendP ::
  "SUTLVector \<Rightarrow> cell list \<Rightarrow> (nat option \<times> SUTLVector \<times> string list) option" where
  "SUTLStringAppendP str ptr = do {
     n \<leftarrow> SHRN_STRLEN ptr;
     SUTLVectorPushN str ptr (of_nat n)
   }"

text \<open>The result is \<open>None\<close> for \<open>NULL\<close> and \<open>Some slice\<close> for a new string.\<close>

definition SUTL_InternalStringSlice ::
  "SUTLVector \<Rightarrow> size_t \<Rightarrow> size_t \<Rightarrow> (SUTLVector option \<times> string list) option" where
  "SUTL_InternalStringSlice str at sz0 =
     (let strSize = SUTLVectorSize str in
      if at \<ge> strSize
      then Some (None, [''Invalid index specified for slicing string.''])
      else do {
        let sz1 = (if sz0 \<noteq> 0 then sz0 else strSize - at);
        let slice = SUTLStringNew;
        (slice1, e) \<leftarrow> SUTL_InternalVectorResize slice sz1;
        let sz2 = (if at + sz1 > strSize then strSize - at else sz1);
        d \<leftarrow> SHRN_MEMCPY (Data slice1) 0 (drop (unat at) (Data str)) (unat sz2);
        Some (Some (slice1\<lparr>Data := d\<rparr>), e)
      })"

section \<open>HashUtils.h\<close>

text \<open>
  A catalogue function receives a pointer; the model passes the bytes readable there.
  Multi-byte values are little-endian.  Loading an indeterminate byte as part of a value
  is undefined.
\<close>

fun le_word :: "byte list \<Rightarrow> 'a::len word" where
  "le_word [] = 0"
| "le_word (b # bs) = ucast b + push_bit 8 (le_word bs)"

definition load_value :: "cell list \<Rightarrow> nat \<Rightarrow> nat \<Rightarrow> 'a::len word option" where
  "load_value m off n = do { cs \<leftarrow> load m off n; bs \<leftarrow> those cs; Some (le_word bs) }"

text \<open>The object representations of an \<open>int\<close> and of an \<open>unsigned char\<close>.\<close>

definition int_object :: "32 word \<Rightarrow> cell list" where
  "int_object x =
     map Some [ucast x, ucast (drop_bit 8 x), ucast (drop_bit 16 x), ucast (drop_bit 24 x)]"

definition uchar_object :: "8 word \<Rightarrow> cell list" where
  "uchar_object x = [Some x]"

definition SUTLHash_int :: "cell list \<Rightarrow> size_t option" where
  "SUTLHash_int v = do { x \<leftarrow> load_value v 0 4; Some (scast (x :: 32 word)) }"

definition SUTLCmp_int :: "cell list \<Rightarrow> cell list \<Rightarrow> int option" where
  "SUTLCmp_int p0 p1 = do {
     x \<leftarrow> load_value p0 0 4;
     y \<leftarrow> load_value p1 0 4;
     Some (if (x :: 32 word) = y then 1 else 0)
   }"

definition SUTLHash_uchar :: "cell list \<Rightarrow> size_t option" where
  "SUTLHash_uchar v = do { x \<leftarrow> load_value v 0 1; Some (ucast (x :: 8 word)) }"

definition SUTLCmp_uchar :: "cell list \<Rightarrow> cell list \<Rightarrow> int option" where
  "SUTLCmp_uchar p0 p1 = do {
     x \<leftarrow> load_value p0 0 1;
     y \<leftarrow> load_value p1 0 1;
     Some (if (x :: 8 word) = y then 1 else 0)
   }"

text \<open>
  \<open>SUTLHash_string\<close>.  The first loop folds the \<open>size_t\<close>-sized chunks \<open>buf[i]\<close> into
  \<open>hash\<close>.  The second loop executes \<open>((char *)hash)[i] ^= ...\<close>: its lvalue is the byte
  at the address whose value is \<open>hash + i\<close>, not a byte of the variable \<open>hash\<close>.  An
  integer converted to a pointer designates no object of the program, so the access is
  undefined (\<open>deref_address\<close>); the variable \<open>hash\<close> is not assigned by this loop.
\<close>

definition deref_address :: "size_t \<Rightarrow> byte option" where
  "deref_address a = None"

function SUTLHash_string_chunks :: "SUTLVector \<Rightarrow> size_t \<Rightarrow> size_t \<Rightarrow> size_t \<Rightarrow> size_t option" where
  "SUTLHash_string_chunks v bufSize i hash =
     (if i < bufSize
      then do {
        x \<leftarrow> load_value (Data v) (unat i * 8) 8;
        SUTLHash_string_chunks v bufSize (i + 1) (hash XOR x)
      }
      else Some hash)"
  by pat_completeness auto
termination
proof (relation "measure (\<lambda>(v, bufSize, i, hash). unat (bufSize - i))")
  show "wf (measure (\<lambda>(v, bufSize, i, hash). unat (bufSize - i)))"
    by simp
next
  fix v :: SUTLVector and bufSize i hash x :: size_t
  assume "i < bufSize"
  then show "((v, bufSize, i + 1, hash XOR x), (v, bufSize, i, hash))
      \<in> measure (\<lambda>(v, bufSize, i, hash). unat (bufSize - i))"
    by (simp add: add.commute diff_add_eq_diff_diff_swap measure_unat)
qed

function SUTLHash_string_tail ::
  "SUTLVector \<Rightarrow> size_t \<Rightarrow> size_t \<Rightarrow> size_t \<Rightarrow> size_t \<Rightarrow> size_t option" where
  "SUTLHash_string_tail v bufSize remSize i hash =
     (if i < remSize
      then do {
        c :: byte \<leftarrow> load_value (Data v) (unat (bufSize * 8 + i)) 1;
        old \<leftarrow> deref_address (hash + i);
        SUTLHash_string_tail v bufSize remSize (i + 1) hash
      }
      else Some hash)"
  by pat_completeness auto
termination
proof (relation "measure (\<lambda>(v, bufSize, remSize, i, hash). unat (remSize - i))")
  show "wf (measure (\<lambda>(v, bufSize, remSize, i, hash). unat (remSize - i)))"
    by simp
next
  fix v :: SUTLVector and bufSize remSize i hash :: size_t
  assume "i < remSize"
  then show "((v, bufSize, remSize, i + 1, hash), (v, bufSize, remSize, i, hash))
      \<in> measure (\<lambda>(v, bufSize, remSize, i, hash). unat (remSize - i))"
    by (simp add: add.commute diff_add_eq_diff_diff_swap measure_unat)
qed

definition SUTLHash_string :: "SUTLVector \<Rightarrow> size_t option" where
  "SUTLHash_string v = do {
     let hash = - 1;
     let bufSize = SUTLVectorSize v div 8;
     let remSize = SUTLVectorSize v mod 8;
     hash1 \<leftarrow> SUTLHash_string_chunks v bufSize 0 hash;
     if remSize \<noteq> 0 then SUTLHash_string_tail v bufSize remSize 0 hash1 else Some hash1
   }"

section \<open>Hashmap.h\<close>

text \<open>
  \<open>Keys\<close> and \<open>Values\<close> are the two arrays of bucket vectors (vectors of \<open>char\<close>).
  \<open>Hash\<close> and \<open>KeyComp\<close> are the injected functions; each is applied to the key-sized
  object at the pointer it receives.  A pointer into the table is a pair: the index of
  the bucket it points into and the byte offset in that bucket's vector.
\<close>

record SUTLHashmap =
  Size :: size_t
  KeySize :: size_t
  ValueSize :: size_t
  ParamK :: SUTLVector
  ParamV :: SUTLVector
  Keys :: "SUTLVector list"
  Values :: "SUTLVector list"
  Hash :: "cell list \<Rightarrow> size_t option"
  KeyComp :: "cell list \<Rightarrow> cell list \<Rightarrow> int option"

definition SUTL_HASHMAP_BUCKET_COUNT :: size_t where
  "SUTL_HASHMAP_BUCKET_COUNT = 32"

definition SUTL_InternalHashmapNew ::
  "size_t \<Rightarrow> size_t \<Rightarrow> (cell list \<Rightarrow> size_t option) \<Rightarrow> (cell list \<Rightarrow> cell list \<Rightarrow> int option)
     \<Rightarrow> (SUTLHashmap \<times> string list) option" where
  "SUTL_InternalHashmapNew keysize valuesize hash keycomp = do {
     (pk, e1) \<leftarrow> SUTL_InternalVectorResize (SUTL_InternalVectorNew 1) keysize;
     (pv, e2) \<leftarrow> SUTL_InternalVectorResize (SUTL_InternalVectorNew 1) valuesize;
     Some (\<lparr>Size = 0, KeySize = keysize, ValueSize = valuesize, ParamK = pk, ParamV = pv,
            Keys = replicate (unat SUTL_HASHMAP_BUCKET_COUNT) (SUTL_InternalVectorNew 1),
            Values = replicate (unat SUTL_HASHMAP_BUCKET_COUNT) (SUTL_InternalVectorNew 1),
            Hash = hash, KeyComp = keycomp\<rparr>, e1 @ e2)
   }"

text \<open>The search loop of \<open>SUTL_InternalHashmapInsert\<close>; it has no \<open>break\<close>, and the
  pointer it computes is \<open>hm->Values[index] + i * hm->KeySize\<close>.\<close>

function SUTL_InternalHashmapInsert_loop ::
  "SUTLHashmap \<Rightarrow> nat \<Rightarrow> size_t \<Rightarrow> (nat \<times> nat) option \<Rightarrow> (nat \<times> nat) option option" where
  "SUTL_InternalHashmapInsert_loop hm index i val =
     (if i < SUTLVectorSize (Keys hm ! index) div KeySize hm
      then do {
        k \<leftarrow> load (Data (ParamK hm)) 0 (unat (KeySize hm));
        s \<leftarrow> load (Data (Keys hm ! index)) (unat (i * KeySize hm)) (unat (KeySize hm));
        c \<leftarrow> KeyComp hm k s;
        SUTL_InternalHashmapInsert_loop hm index (i + 1)
          (if c \<noteq> 0 then Some (index, unat (i * KeySize hm)) else val)
      }
      else Some val)"
  by pat_completeness auto
termination
proof (relation "measure (\<lambda>(hm, index, i, val). unat (SUTLVectorSize (Keys hm ! index) div KeySize hm - i))")
  show "wf (measure (\<lambda>(hm, index, i, val). unat (SUTLVectorSize (Keys hm ! index) div KeySize hm - i)))"
    by simp
next
  fix hm :: SUTLHashmap and index :: nat and i :: size_t and val :: "(nat \<times> nat) option" and c :: int
  assume "i < SUTLVectorSize (Keys hm ! index) div KeySize hm"
  then show "((hm, index, i + 1, if c \<noteq> 0 then Some (index, unat (i * KeySize hm)) else val), (hm, index, i, val))
      \<in> measure (\<lambda>(hm, index, i, val). unat (SUTLVectorSize (Keys hm ! index) div KeySize hm - i))"
    by (simp add: add.commute diff_add_eq_diff_diff_swap measure_unat)
qed

definition SUTL_InternalHashmapInsert ::
  "SUTLHashmap \<Rightarrow> ((nat \<times> nat) option \<times> SUTLHashmap \<times> string list) option" where
  "SUTL_InternalHashmapInsert hm = do {
     k \<leftarrow> load (Data (ParamK hm)) 0 (unat (KeySize hm));
     h \<leftarrow> Hash hm k;
     let index = unat (h mod SUTL_HASHMAP_BUCKET_COUNT);
     let hm1 = hm\<lparr>Size := Size hm + 1\<rparr>;
     val \<leftarrow> (if KeySize hm1 = 0 then None else SUTL_InternalHashmapInsert_loop hm1 index 0 None);
     (case val of
        Some p \<Rightarrow> Some (Some p, hm1, [])
      | None \<Rightarrow> do {
          (pk, kv, e1) \<leftarrow> SUTLVectorPushN (Keys hm1 ! index) (Data (ParamK hm1)) (KeySize hm1);
          let hm2 = hm1\<lparr>Keys := (Keys hm1)[index := kv]\<rparr>;
          (pv, vv, e2) \<leftarrow> SUTLVectorPushN (Values hm2 ! index) (Data (ParamV hm2)) (ValueSize hm2);
          Some (map_option (Pair index) pv, hm2\<lparr>Values := (Values hm2)[index := vv]\<rparr>, e1 @ e2)
        })
   }"

text \<open>The search loop of \<open>SUTL_InternalHashmapErase\<close>, bounded by
  \<open>SUTLVectorSize(hm->Keys[index])\<close>; it ends at the first match.\<close>

function SUTL_InternalHashmapErase_loop ::
  "SUTLHashmap \<Rightarrow> nat \<Rightarrow> size_t \<Rightarrow> (SUTLHashmap \<times> string list) option" where
  "SUTL_InternalHashmapErase_loop hm index i =
     (if i < SUTLVectorSize (Keys hm ! index)
      then do {
        k \<leftarrow> load (Data (ParamK hm)) 0 (unat (KeySize hm));
        s \<leftarrow> load (Data (Keys hm ! index)) (unat (i * KeySize hm)) (unat (KeySize hm));
        c \<leftarrow> KeyComp hm k s;
        if c \<noteq> 0
        then do {
          (kv, e1) \<leftarrow> SUTL_InternalVectorEraseN (Keys hm ! index) (i * KeySize hm) (KeySize hm);
          (vv, e2) \<leftarrow> SUTL_InternalVectorEraseN (Values hm ! index) (i * ValueSize hm) (ValueSize hm);
          Some (hm\<lparr>Keys := (Keys hm)[index := kv], Values := (Values hm)[index := vv],
                    Size := Size hm - 1\<rparr>, e1 @ e2)
        }
        else SUTL_InternalHashmapErase_loop hm index (i + 1)
      }
      else Some (hm, []))"
  by pat_completeness auto
termination
proof (relation "measure (\<lambda>(hm, index, i). unat (SUTLVectorSize (Keys hm ! index) - i))")
  show "wf (measure (\<lambda>(hm, index, i). unat (SUTLVectorSize (Keys hm ! index) - i)))"
    by simp
next
  fix hm :: SUTLHashmap and index :: nat and i :: size_t
  assume "i < SUTLVectorSize (Keys hm ! index)"
  then show "((hm, index, i + 1), (hm, index, i)) \<in> measure (\<lambda>(hm, index, i). unat (SUTLVectorSize (Keys hm ! index) - i))"
    by (simp add: add.commute diff_add_eq_diff_diff_swap measure_unat)
qed

definition SUTL_InternalHashmapErase :: "SUTLHashmap \<Rightarrow> (SUTLHashmap \<times> string list) option" where
  "SUTL_InternalHashmapErase hm = do {
     k \<leftarrow> load (Data (ParamK hm)) 0 (unat (KeySize hm));
     h \<leftarrow> Hash hm k;
     let index = unat (h mod SUTL_HASHMAP_BUCKET_COUNT);
     SUTL_InternalHashmapErase_loop hm index 0
   }"

function SUTL_InternalHashmapGet_loop ::
  "SUTLHashmap \<Rightarrow> nat \<Rightarrow> size_t \<Rightarrow> (nat \<times> nat) option option" where
  "SUTL_InternalHashmapGet_loop hm index i =
     (if i < SUTLVectorSize (Keys hm ! index) div KeySize hm
      then do {
        k \<leftarrow> load (Data (ParamK hm)) 0 (unat (KeySize hm));
        s \<leftarrow> load (Data (Keys hm ! index)) (unat (i * KeySize hm)) (unat (KeySize hm));
        c \<leftarrow> KeyComp hm k s;
        if c \<noteq> 0 then Some (Some (index, unat (i * ValueSize hm)))
        else SUTL_InternalHashmapGet_loop hm index (i + 1)
      }
      else Some None)"
  by pat_completeness auto
termination
proof (relation "measure (\<lambda>(hm, index, i). unat (SUTLVectorSize (Keys hm ! index) div KeySize hm - i))")
  show "wf (measure (\<lambda>(hm, index, i). unat (SUTLVectorSize (Keys hm ! index) div KeySize hm - i)))"
    by simp
next
  fix hm :: SUTLHashmap and index :: nat and i :: size_t
  assume "i < SUTLVectorSize (Keys hm ! index) div KeySize hm"
  then show "((hm, index, i + 1), (hm, index, i)) \<in> measure (\<lambda>(hm, index, i). unat (SUTLVectorSize (Keys hm ! index) div KeySize hm - i))"
    by (simp add: add.commute diff_add_eq_diff_diff_swap measure_unat)
qed

definition SUTL_InternalHashmapGet :: "SUTLHashmap \<Rightarrow> (nat \<times> nat) option option" where
  "SUTL_InternalHashmapGet hm = do {
     k \<leftarrow> load (Data (ParamK hm)) 0 (unat (KeySize hm));
     h \<leftarrow> Hash hm k;
     let index = unat (h mod SUTL_HASHMAP_BUCKET_COUNT);
     if KeySize hm = 0 then None else SUTL_InternalHashmapGet_loop hm index 0
   }"

text \<open>
  The public macros first store the arguments through \<open>ParamK\<close> and \<open>ParamV\<close>
  (\<open>*(tk *)hm.ParamK = k\<close>), then call the internal function.  An argument is the
  object representation of the value, \<open>sizeof(tk)\<close> bytes long.
\<close>

definition store :: "SUTLVector \<Rightarrow> cell list \<Rightarrow> SUTLVector option" where
  "store v x = do { d \<leftarrow> SHRN_MEMCPY (Data v) 0 x (length x); Some (v\<lparr>Data := d\<rparr>) }"

definition SUTLHashmapInsert ::
  "SUTLHashmap \<Rightarrow> cell list \<Rightarrow> cell list
     \<Rightarrow> ((nat \<times> nat) option \<times> SUTLHashmap \<times> string list) option" where
  "SUTLHashmapInsert hm k v = do {
     pk \<leftarrow> store (ParamK hm) k;
     pv \<leftarrow> store (ParamV hm) v;
     SUTL_InternalHashmapInsert (hm\<lparr>ParamK := pk, ParamV := pv\<rparr>)
   }"

definition SUTLHashmapErase :: "SUTLHashmap \<Rightarrow> cell list \<Rightarrow> (SUTLHashmap \<times> string list) option" where
  "SUTLHashmapErase hm k = do {
     pk \<leftarrow> store (ParamK hm) k;
     SUTL_InternalHashmapErase (hm\<lparr>ParamK := pk\<rparr>)
   }"

definition SUTLHashmapGet ::
  "SUTLHashmap \<Rightarrow> cell list \<Rightarrow> ((nat \<times> nat) option \<times> SUTLHashmap) option" where
  "SUTLHashmapGet hm k = do {
     pk \<leftarrow> store (ParamK hm) k;
     p \<leftarrow> SUTL_InternalHashmapGet (hm\<lparr>ParamK := pk\<rparr>);
     Some (p, hm\<lparr>ParamK := pk\<rparr>)
   }"

section \<open>Hashset.h\<close>

record SUTLHashset =
  Size_s :: size_t
  KeySize_s :: size_t
  ParamK_s :: SUTLVector
  Keys_s :: "SUTLVector list"
  Hash_s :: "cell list \<Rightarrow> size_t option"
  KeyComp_s :: "cell list \<Rightarrow> cell list \<Rightarrow> int option"

definition SUTL_HASHSET_BUCKET_COUNT :: size_t where
  "SUTL_HASHSET_BUCKET_COUNT = 32"

definition SUTL_InternalHashsetNew ::
  "size_t \<Rightarrow> (cell list \<Rightarrow> size_t option) \<Rightarrow> (cell list \<Rightarrow> cell list \<Rightarrow> int option)
     \<Rightarrow> (SUTLHashset \<times> string list) option" where
  "SUTL_InternalHashsetNew keysize hash keycomp = do {
     (pk, e1) \<leftarrow> SUTL_InternalVectorResize (SUTL_InternalVectorNew 1) keysize;
     Some (\<lparr>Size_s = 0, KeySize_s = keysize, ParamK_s = pk,
            Keys_s = replicate (unat SUTL_HASHSET_BUCKET_COUNT) (SUTL_InternalVectorNew 1),
            Hash_s = hash, KeyComp_s = keycomp\<rparr>, e1)
   }"

function SUTL_InternalHashsetInsert_loop ::
  "SUTLHashset \<Rightarrow> nat \<Rightarrow> size_t \<Rightarrow> (nat \<times> nat) option \<Rightarrow> (nat \<times> nat) option option" where
  "SUTL_InternalHashsetInsert_loop hm index i val =
     (if i < SUTLVectorSize (Keys_s hm ! index) div KeySize_s hm
      then do {
        k \<leftarrow> load (Data (ParamK_s hm)) 0 (unat (KeySize_s hm));
        s \<leftarrow> load (Data (Keys_s hm ! index)) (unat (i * KeySize_s hm)) (unat (KeySize_s hm));
        c \<leftarrow> KeyComp_s hm k s;
        SUTL_InternalHashsetInsert_loop hm index (i + 1)
          (if c \<noteq> 0 then Some (index, unat (i * KeySize_s hm)) else val)
      }
      else Some val)"
  by pat_completeness auto
termination
proof (relation "measure (\<lambda>(hm, index, i, val). unat (SUTLVectorSize (Keys_s hm ! index) div KeySize_s hm - i))")
  show "wf (measure (\<lambda>(hm, index, i, val). unat (SUTLVectorSize (Keys_s hm ! index) div KeySize_s hm - i)))"
    by simp
next
  fix hm :: SUTLHashset and index :: nat and i :: size_t and val :: "(nat \<times> nat) option" and c :: int
  assume "i < SUTLVectorSize (Keys_s hm ! index) div KeySize_s hm"
  then show "((hm, index, i + 1, if c \<noteq> 0 then Some (index, unat (i * KeySize_s hm)) else val), (hm, index, i, val))
      \<in> measure (\<lambda>(hm, index, i, val). unat (SUTLVectorSize (Keys_s hm ! index) div KeySize_s hm - i))"
    by (simp add: add.commute diff_add_eq_diff_diff_swap measure_unat)
qed

definition SUTL_InternalHashsetInsert ::
  "SUTLHashset \<Rightarrow> ((nat \<times> nat) option \<times> SUTLHashset \<times> string list) option" where
  "SUTL_InternalHashsetInsert hs = do {
     k \<leftarrow> load (Data (ParamK_s hs)) 0 (unat (KeySize_s hs));
     h \<leftarrow> Hash_s hs k;
     let index = unat (h mod SUTL_HASHSET_BUCKET_COUNT);
     let hs1 = hs\<lparr>Size_s := Size_s hs + 1\<rparr>;
     entry \<leftarrow> (if KeySize_s hs1 = 0 then None else SUTL_InternalHashsetInsert_loop hs1 index 0 None);
     (case entry of
        Some p \<Rightarrow> Some (Some p, hs1, [])
      | None \<Rightarrow> do {
          (pk, kv, e1) \<leftarrow> SUTLVectorPushN (Keys_s hs1 ! index) (Data (ParamK_s hs1)) (KeySize_s hs1);
          Some (map_option (Pair index) pk, hs1\<lparr>Keys_s := (Keys_s hs1)[index := kv]\<rparr>, e1)
        })
   }"

function SUTL_InternalHashsetErase_loop ::
  "SUTLHashset \<Rightarrow> nat \<Rightarrow> size_t \<Rightarrow> (SUTLHashset \<times> string list) option" where
  "SUTL_InternalHashsetErase_loop hm index i =
     (if i < SUTLVectorSize (Keys_s hm ! index)
      then do {
        k \<leftarrow> load (Data (ParamK_s hm)) 0 (unat (KeySize_s hm));
        s \<leftarrow> load (Data (Keys_s hm ! index)) (unat (i * KeySize_s hm)) (unat (KeySize_s hm));
        c \<leftarrow> KeyComp_s hm k s;
        if c \<noteq> 0
        then do {
          (kv, e1) \<leftarrow> SUTL_InternalVectorEraseN (Keys_s hm ! index) (i * KeySize_s hm) (KeySize_s hm);
          Some (hm\<lparr>Keys_s := (Keys_s hm)[index := kv], Size_s := Size_s hm - 1\<rparr>, e1)
        }
        else SUTL_InternalHashsetErase_loop hm index (i + 1)
      }
      else Some (hm, []))"
  by pat_completeness auto
termination
proof (relation "measure (\<lambda>(hm, index, i). unat (SUTLVectorSize (Keys_s hm ! index) - i))")
  show "wf (measure (\<lambda>(hm, index, i). unat (SUTLVectorSize (Keys_s hm ! index) - i)))"
    by simp
next
  fix hm :: SUTLHashset and index :: nat and i :: size_t
  assume "i < SUTLVectorSize (Keys_s hm ! index)"
  then show "((hm, index, i + 1), (hm, index, i)) \<in> measure (\<lambda>(hm, index, i). unat (SUTLVectorSize (Keys_s hm ! index) - i))"
    by (simp add: add.commute diff_add_eq_diff_diff_swap measure_unat)
qed

definition SUTL_InternalHashsetErase :: "SUTLHashset \<Rightarrow> (SUTLHashset \<times> string list) option" where
  "SUTL_InternalHashsetErase hs = do {
     k \<leftarrow> load (Data (ParamK_s hs)) 0 (unat (KeySize_s hs));
     h \<leftarrow> Hash_s hs k;
     let index = unat (h mod SUTL_HASHSET_BUCKET_COUNT);
     SUTL_InternalHashsetErase_loop hs index 0
   }"

function SUTL_InternalHashsetGet_loop ::
  "SUTLHashset \<Rightarrow> nat \<Rightarrow> size_t \<Rightarrow> (nat \<times> nat) option option" where
  "SUTL_InternalHashsetGet_loop hm index i =
     (if i < SUTLVectorSize (Keys_s hm ! index) div KeySize_s hm
      then do {
        k \<leftarrow> load (Data (ParamK_s hm)) 0 (unat (KeySize_s hm));
        s \<leftarrow> load (Data (Keys_s hm ! index)) (unat (i * KeySize_s hm)) (unat (KeySize_s hm));
        c \<leftarrow> KeyComp_s hm k s;
        if c \<noteq> 0 then Some (Some (index, unat (i * KeySize_s hm)))
        else SUTL_InternalHashsetGet_loop hm index (i + 1)
      }
      else Some None)"
  by pat_completeness auto
termination
proof (relation "measure (\<lambda>(hm, index, i). unat (SUTLVectorSize (Keys_s hm ! index) div KeySize_s hm - i))")
  show "wf (measure (\<lambda>(hm, index, i). unat (SUTLVectorSize (Keys_s hm ! index) div KeySize_s hm - i)))"
    by simp
next
  fix hm :: SUTLHashset and index :: nat and i :: size_t
  assume "i < SUTLVectorSize (Keys_s hm ! index) div KeySize_s hm"
  then show "((hm, index, i + 1), (hm, index, i)) \<in> measure (\<lambda>(hm, index, i). unat (SUTLVectorSize (Keys_s hm ! index) div KeySize_s hm - i))"
    by (simp add: add.commute diff_add_eq_diff_diff_swap measure_unat)
qed

definition SUTL_InternalHashsetGet :: "SUTLHashset \<Rightarrow> (nat \<times> nat) option option" where
  "SUTL_InternalHashsetGet hs = do {
     k \<leftarrow> load (Data (ParamK_s hs)) 0 (unat (KeySize_s hs));
     h \<leftarrow> Hash_s hs k;
     let index = unat (h mod SUTL_HASHSET_BUCKET_COUNT);
     if KeySize_s hs = 0 then None else SUTL_InternalHashsetGet_loop hs index 0
   }"

definition SUTLHashsetInsert ::
  "SUTLHashset \<Rightarrow> cell list \<Rightarrow> ((nat \<times> nat) option \<times> SUTLHashset \<times> string list) option" where
  "SUTLHashsetInsert hs k = do {
     pk \<leftarrow> store (ParamK_s hs) k;
     SUTL_InternalHashsetInsert (hs\<lparr>ParamK_s := pk\<rparr>)
   }"

definition SUTLHashsetErase :: "SUTLHashset \<Rightarrow> cell list \<Rightarrow> (SUTLHashset \<times> string list) option" where
  "SUTLHashsetErase hs k = do {
     pk \<leftarrow> store (ParamK_s hs) k;
     SUTL_InternalHashsetErase (hs\<lparr>ParamK_s := pk\<rparr>)
   }"

definition SUTLHashsetGet ::
  "SUTLHashset \<Rightarrow> cell list \<Rightarrow> ((nat \<times> nat) option \<times> SUTLHashset) option" where
  "SUTLHashsetGet hs k = do {
     pk \<leftarrow> store (ParamK_s hs) k;
     p \<leftarrow> SUTL_InternalHashsetGet (hs\<lparr>ParamK_s := pk\<rparr>);
     Some (p, hs\<lparr>ParamK_s := pk\<rparr>)
   }"

section \<open>The map on the machine\<close>

text \<open>
  The definitions above stop at the first read that the C standard leaves undefined.
  On the machine such a read still returns bytes: a byte the program never wrote, or a
  byte behind the end of the block, holds whatever is there.  \<open>raw_load env m off n\<close> is
  that read: the written bytes of the block \<open>m\<close> as they are, and the byte \<open>env p\<close> at
  every other offset \<open>p\<close>.  The functions named \<open>_raw\<close> are the functions of Hashmap.h
  with the key slot of the scan read by \<open>raw_load\<close>; nothing else differs.  Writes
  outside a block, a division by zero and wrong-sized arguments remain undefined.
\<close>

definition raw_load :: "(nat \<Rightarrow> byte) \<Rightarrow> cell list \<Rightarrow> nat \<Rightarrow> nat \<Rightarrow> cell list" where
  "raw_load env m off n =
     map Some
       (map (\<lambda>p. case (if p < length m then m ! p else None) of Some b \<Rightarrow> b | None \<Rightarrow> env p)
          [off ..< off + n])"

function SUTL_InternalHashmapInsert_loop_raw ::
  "(nat \<Rightarrow> byte) \<Rightarrow> SUTLHashmap \<Rightarrow> nat \<Rightarrow> size_t \<Rightarrow> (nat \<times> nat) option
     \<Rightarrow> (nat \<times> nat) option option" where
  "SUTL_InternalHashmapInsert_loop_raw env hm index i val =
     (if i < SUTLVectorSize (Keys hm ! index) div KeySize hm
      then do {
        k \<leftarrow> load (Data (ParamK hm)) 0 (unat (KeySize hm));
        c \<leftarrow> KeyComp hm k
               (raw_load env (Data (Keys hm ! index)) (unat (i * KeySize hm)) (unat (KeySize hm)));
        SUTL_InternalHashmapInsert_loop_raw env hm index (i + 1)
          (if c \<noteq> 0 then Some (index, unat (i * KeySize hm)) else val)
      }
      else Some val)"
  by pat_completeness auto
termination
proof (relation "measure (\<lambda>(env, hm, index, i, val). unat (SUTLVectorSize (Keys hm ! index) div KeySize hm - i))")
  show "wf (measure (\<lambda>(env, hm, index, i, val). unat (SUTLVectorSize (Keys hm ! index) div KeySize hm - i)))"
    by simp
next
  fix env :: "nat \<Rightarrow> byte" and hm :: SUTLHashmap and index :: nat and i :: size_t
    and val :: "(nat \<times> nat) option" and c :: int
  assume "i < SUTLVectorSize (Keys hm ! index) div KeySize hm"
  then show "((env, hm, index, i + 1, if c \<noteq> 0 then Some (index, unat (i * KeySize hm)) else val),
      (env, hm, index, i, val))
      \<in> measure (\<lambda>(env, hm, index, i, val). unat (SUTLVectorSize (Keys hm ! index) div KeySize hm - i))"
    by (simp add: add.commute diff_add_eq_diff_diff_swap measure_unat)
qed

definition SUTL_InternalHashmapInsert_raw ::
  "(nat \<Rightarrow> byte) \<Rightarrow> SUTLHashmap \<Rightarrow> ((nat \<times> nat) option \<times> SUTLHashmap \<times> string list) option" where
  "SUTL_InternalHashmapInsert_raw env hm = do {
     k \<leftarrow> load (Data (ParamK hm)) 0 (unat (KeySize hm));
     h \<leftarrow> Hash hm k;
     let index = unat (h mod SUTL_HASHMAP_BUCKET_COUNT);
     let hm1 = hm\<lparr>Size := Size hm + 1\<rparr>;
     val \<leftarrow> (if KeySize hm1 = 0 then None
             else SUTL_InternalHashmapInsert_loop_raw env hm1 index 0 None);
     (case val of
        Some p \<Rightarrow> Some (Some p, hm1, [])
      | None \<Rightarrow> do {
          (pk, kv, e1) \<leftarrow> SUTLVectorPushN (Keys hm1 ! index) (Data (ParamK hm1)) (KeySize hm1);
          let hm2 = hm1\<lparr>Keys := (Keys hm1)[index := kv]\<rparr>;
          (pv, vv, e2) \<leftarrow> SUTLVectorPushN (Values hm2 ! index) (Data (ParamV hm2)) (ValueSize hm2);
          Some (map_option (Pair index) pv, hm2\<lparr>Values := (Values hm2)[index := vv]\<rparr>, e1 @ e2)
        })
   }"

function SUTL_InternalHashmapErase_loop_raw ::
  "(nat \<Rightarrow> byte) \<Rightarrow> SUTLHashmap \<Rightarrow> nat \<Rightarrow> size_t \<Rightarrow> (SUTLHashmap \<times> string list) option" where
  "SUTL_InternalHashmapErase_loop_raw env hm index i =
     (if i < SUTLVectorSize (Keys hm ! index)
      then do {
        k \<leftarrow> load (Data (ParamK hm)) 0 (unat (KeySize hm));
        c \<leftarrow> KeyComp hm k
               (raw_load env (Data (Keys hm ! index)) (unat (i * KeySize hm)) (unat (KeySize hm)));
        if c \<noteq> 0
        then do {
          (kv, e1) \<leftarrow> SUTL_InternalVectorEraseN (Keys hm ! index) (i * KeySize hm) (KeySize hm);
          (vv, e2) \<leftarrow> SUTL_InternalVectorEraseN (Values hm ! index) (i * ValueSize hm) (ValueSize hm);
          Some (hm\<lparr>Keys := (Keys hm)[index := kv], Values := (Values hm)[index := vv],
                    Size := Size hm - 1\<rparr>, e1 @ e2)
        }
        else SUTL_InternalHashmapErase_loop_raw env hm index (i + 1)
      }
      else Some (hm, []))"
  by pat_completeness auto
termination
proof (relation "measure (\<lambda>(env, hm, index, i). unat (SUTLVectorSize (Keys hm ! index) - i))")
  show "wf (measure (\<lambda>(env, hm, index, i). unat (SUTLVectorSize (Keys hm ! index) - i)))"
    by simp
next
  fix env :: "nat \<Rightarrow> byte" and hm :: SUTLHashmap and index :: nat and i :: size_t
  assume "i < SUTLVectorSize (Keys hm ! index)"
  then show "((env, hm, index, i + 1), (env, hm, index, i))
      \<in> measure (\<lambda>(env, hm, index, i). unat (SUTLVectorSize (Keys hm ! index) - i))"
    by (simp add: add.commute diff_add_eq_diff_diff_swap measure_unat)
qed

definition SUTL_InternalHashmapErase_raw ::
  "(nat \<Rightarrow> byte) \<Rightarrow> SUTLHashmap \<Rightarrow> (SUTLHashmap \<times> string list) option" where
  "SUTL_InternalHashmapErase_raw env hm = do {
     k \<leftarrow> load (Data (ParamK hm)) 0 (unat (KeySize hm));
     h \<leftarrow> Hash hm k;
     let index = unat (h mod SUTL_HASHMAP_BUCKET_COUNT);
     SUTL_InternalHashmapErase_loop_raw env hm index 0
   }"

function SUTL_InternalHashmapGet_loop_raw ::
  "(nat \<Rightarrow> byte) \<Rightarrow> SUTLHashmap \<Rightarrow> nat \<Rightarrow> size_t \<Rightarrow> (nat \<times> nat) option option" where
  "SUTL_InternalHashmapGet_loop_raw env hm index i =
     (if i < SUTLVectorSize (Keys hm ! index) div KeySize hm
      then do {
        k \<leftarrow> load (Data (ParamK hm)) 0 (unat (KeySize hm));
        c \<leftarrow> KeyComp hm k
               (raw_load env (Data (Keys hm ! index)) (unat (i * KeySize hm)) (unat (KeySize hm)));
        if c \<noteq> 0 then Some (Some (index, unat (i * ValueSize hm)))
        else SUTL_InternalHashmapGet_loop_raw env hm index (i + 1)
      }
      else Some None)"
  by pat_completeness auto
termination
proof (relation "measure (\<lambda>(env, hm, index, i). unat (SUTLVectorSize (Keys hm ! index) div KeySize hm - i))")
  show "wf (measure (\<lambda>(env, hm, index, i). unat (SUTLVectorSize (Keys hm ! index) div KeySize hm - i)))"
    by simp
next
  fix env :: "nat \<Rightarrow> byte" and hm :: SUTLHashmap and index :: nat and i :: size_t
  assume "i < SUTLVectorSize (Keys hm ! index) div KeySize hm"
  then show "((env, hm, index, i + 1), (env, hm, index, i))
      \<in> measure (\<lambda>(env, hm, index, i). unat (SUTLVectorSize (Keys hm ! index) div KeySize hm - i))"
    by (simp add: add.commute diff_add_eq_diff_diff_swap measure_unat)
qed

definition SUTL_InternalHashmapGet_raw ::
  "(nat \<Rightarrow> byte) \<Rightarrow> SUTLHashmap \<Rightarrow> (nat \<times> nat) option option" where
  "SUTL_InternalHashmapGet_raw env hm = do {
     k \<leftarrow> load (Data (ParamK hm)) 0 (unat (KeySize hm));
     h \<leftarrow> Hash hm k;
     let index = unat (h mod SUTL_HASHMAP_BUCKET_COUNT);
     if KeySize hm = 0 then None else SUTL_InternalHashmapGet_loop_raw env hm index 0
   }"

definition SUTLHashmapInsert_raw ::
  "(nat \<Rightarrow> byte) \<Rightarrow> SUTLHashmap \<Rightarrow> cell list \<Rightarrow> cell list
     \<Rightarrow> ((nat \<times> nat) option \<times> SUTLHashmap \<times> string list) option" where
  "SUTLHashmapInsert_raw env hm k v = do {
     pk \<leftarrow> store (ParamK hm) k;
     pv \<leftarrow> store (ParamV hm) v;
     SUTL_InternalHashmapInsert_raw env (hm\<lparr>ParamK := pk, ParamV := pv\<rparr>)
   }"

definition SUTLHashmapErase_raw ::
  "(nat \<Rightarrow> byte) \<Rightarrow> SUTLHashmap \<Rightarrow> cell list \<Rightarrow> (SUTLHashmap \<times> string list) option" where
  "SUTLHashmapErase_raw env hm k = do {
     pk \<leftarrow> store (ParamK hm) k;
     SUTL_InternalHashmapErase_raw env (hm\<lparr>ParamK := pk\<rparr>)
   }"

definition SUTLHashmapGet_raw ::
  "(nat \<Rightarrow> byte) \<Rightarrow> SUTLHashmap \<Rightarrow> cell list \<Rightarrow> ((nat \<times> nat) option \<times> SUTLHashmap) option" where
  "SUTLHashmapGet_raw env hm k = do {
     pk \<leftarrow> store (ParamK hm) k;
     p \<leftarrow> SUTL_InternalHashmapGet_raw env (hm\<lparr>ParamK := pk\<rparr>);
     Some (p, hm\<lparr>ParamK := pk\<rparr>)
   }"

section \<open>Test.c\<close>

text \<open>The scenarios of the test program and of the claims, as sequences of calls.\<close>

definition uchar_int_map_reinsert :: "((nat \<times> nat) option \<times> (nat \<times> nat) option) option" where
  "uchar_int_map_reinsert = do {
     (hm0, e0) \<leftarrow> SUTL_InternalHashmapNew 1 4 SUTLHash_uchar SUTLCmp_uchar;
     (p1, hm1, e1) \<leftarrow> SUTLHashmapInsert hm0 (uchar_object 1) (int_object 10);
     (p2, hm2, e2) \<leftarrow> SUTLHashmapInsert hm1 (uchar_object 33) (int_object 20);
     (p3, hm3, e3) \<leftarrow> SUTLHashmapInsert hm2 (uchar_object 33) (int_object 30);
     (p4, hm4) \<leftarrow> SUTLHashmapGet hm3 (uchar_object 33);
     Some (p3, p4)
   }"

definition int_map_erase_absent :: "(SUTLHashmap \<times> string list) option" where
  "int_map_erase_absent = do {
     (hm0, e0) \<leftarrow> SUTL_InternalHashmapNew 4 4 SUTLHash_int SUTLCmp_int;
     (p1, hm1, e1) \<leftarrow> SUTLHashmapInsert hm0 (int_object 25) (int_object 625);
     SUTLHashmapErase hm1 (int_object 57)
   }"

definition int_map_erase_twice ::
  "(size_t \<times> size_t \<times> (nat \<times> nat) option \<times> string list) option" where
  "int_map_erase_twice = do {
     (hm0, e0) \<leftarrow> SUTL_InternalHashmapNew 4 4 SUTLHash_int SUTLCmp_int;
     (p1, hm1, e1) \<leftarrow> SUTLHashmapInsert hm0 (int_object 25) (int_object 625);
     (p2, hm2, e2) \<leftarrow> SUTLHashmapInsert hm1 (int_object 57) (int_object 1);
     (hm3, e3) \<leftarrow> SUTLHashmapErase hm2 (int_object 57);
     (hm4, e4) \<leftarrow> SUTLHashmapErase hm3 (int_object 57);
     (p5, hm5) \<leftarrow> SUTLHashmapGet hm4 (int_object 25);
     Some (SUTLVectorSize (Keys hm5 ! 25), Size hm5, p5, e3 @ e4)
   }"

definition int_set_erase_absent :: "(SUTLHashset \<times> string list) option" where
  "int_set_erase_absent = do {
     (hs0, e0) \<leftarrow> SUTL_InternalHashsetNew 4 SUTLHash_int SUTLCmp_int;
     (p1, hs1, e1) \<leftarrow> SUTLHashsetInsert hs0 (int_object 25);
     SUTLHashsetErase hs1 (int_object 57)
   }"

definition hash_of_literal :: "string \<Rightarrow> size_t option" where
  "hash_of_literal s = do {
     (p, str, e) \<leftarrow> SUTLStringAppendP SUTLStringNew (c_literal s);
     SUTLHash_string str
   }"

section \<open>Notions used by the properties\<close>

text \<open>The element sequence of a vector: element \<open>j\<close> is the \<open>Elemsize\<close> bytes at
  \<open>SUTLVectorOffset v j\<close>, for \<open>j\<close> below the size.\<close>

definition SUTLVectorElems :: "SUTLVector \<Rightarrow> cell list list" where
  "SUTLVectorElems v =
     map (\<lambda>j. take (unat (SUTLVectorElemsize v)) (drop (j * unat (SUTLVectorElemsize v)) (Data v)))
       [0..<unat (SUTLVectorSize v)]"

text \<open>A vector whose header describes its block: elements of at least one byte, the
  size within the capacity, \<open>Data\<close> holding exactly \<open>Capacity\<close> elements, and the block
  size (header and data) representable in \<open>size_t\<close>.\<close>

definition vector_wf :: "SUTLVector \<Rightarrow> bool" where
  "vector_wf v \<longleftrightarrow>
     0 < SUTLVectorElemsize v \<and> SUTLVectorSize v \<le> SUTLVectorCapacity v \<and>
     length (Data v) = unat (SUTLVectorCapacity v) * unat (SUTLVectorElemsize v) \<and>
     24 + unat (SUTLVectorCapacity v) * unat (SUTLVectorElemsize v) < 2 ^ 64"

text \<open>The vector of Test.c after \<open>SUTLVectorPushN(v, tmparr, 3)\<close>.\<close>

definition tmparr_vector :: SUTLVector where
  "tmparr_vector =
     \<lparr>SUTLVectorSize = 3, SUTLVectorCapacity = 5, SUTLVectorElemsize = 4,
      Data = int_object 13 @ int_object 33 @ int_object 47 @ replicate 8 None\<rparr>"

text \<open>The string of Test.c after \<open>SUTLStringAppendP(str, "0123456789")\<close>.\<close>

definition digits_string :: SUTLVector where
  "digits_string =
     \<lparr>SUTLVectorSize = 10, SUTLVectorCapacity = 12, SUTLVectorElemsize = 1,
      Data = map (\<lambda>c. Some (of_char c)) ''0123456789'' @ [None, None]\<rparr>"

text \<open>The number of entries \<open>SUTLHashmapEach\<close> (\<open>SUTLHashsetEach\<close>) visits: for every
  bucket, \<open>SUTLVectorSize(Keys[i]) / KeySize\<close> of them.\<close>

definition SUTLHashmapEntries :: "SUTLHashmap \<Rightarrow> nat" where
  "SUTLHashmapEntries hm = sum_list (map (\<lambda>b. unat (SUTLVectorSize b div KeySize hm)) (Keys hm))"

definition SUTLHashsetEntries :: "SUTLHashset \<Rightarrow> nat" where
  "SUTLHashsetEntries hs = sum_list (map (\<lambda>b. unat (SUTLVectorSize b div KeySize_s hs)) (Keys_s hs))"

text \<open>Reading the value a \<open>tv *\<close> into the table points at.\<close>

definition deref_value :: "SUTLHashmap \<Rightarrow> nat \<times> nat \<Rightarrow> cell list option" where
  "deref_value hm p = load (Data (Values hm ! fst p)) (snd p) (unat (ValueSize hm))"

text \<open>
  The HASHMAP group of Test.c for any key and value type: insert, get, erase, get, erase
  again.  The result lists the size and the value read through the pointer of \<open>Get\<close>
  after the insert, the size and the pointer of \<open>Get\<close> after the first erase, the size
  after the second erase, and the messages of the calls after the insert.
\<close>

definition hashmap_round_trip ::
  "size_t \<Rightarrow> size_t \<Rightarrow> (cell list \<Rightarrow> size_t option) \<Rightarrow> (cell list \<Rightarrow> cell list \<Rightarrow> int option)
     \<Rightarrow> cell list \<Rightarrow> cell list
     \<Rightarrow> (size_t \<times> cell list option \<times> size_t \<times> (nat \<times> nat) option \<times> size_t \<times> string list) option"
where
  "hashmap_round_trip ks vs hash keycomp k v = do {
     (hm0, e0) \<leftarrow> SUTL_InternalHashmapNew ks vs hash keycomp;
     (p1, hm1, e1) \<leftarrow> SUTLHashmapInsert hm0 k v;
     (p2, hm2) \<leftarrow> SUTLHashmapGet hm1 k;
     x \<leftarrow> (case p2 of None \<Rightarrow> Some None | Some p \<Rightarrow> map_option Some (deref_value hm2 p));
     (hm3, e3) \<leftarrow> SUTLHashmapErase hm2 k;
     (p4, hm4) \<leftarrow> SUTLHashmapGet hm3 k;
     (hm5, e5) \<leftarrow> SUTLHashmapErase hm4 k;
     Some (Size hm2, x, Size hm4, p4, Size hm5, e3 @ e5)
   }"

text \<open>Inserting the same key twice into a new table: the reported size and the number
  of stored entries afterwards.\<close>

definition hashmap_insert_twice ::
  "size_t \<Rightarrow> size_t \<Rightarrow> (cell list \<Rightarrow> size_t option) \<Rightarrow> (cell list \<Rightarrow> cell list \<Rightarrow> int option)
     \<Rightarrow> cell list \<Rightarrow> cell list \<Rightarrow> cell list \<Rightarrow> (size_t \<times> nat) option" where
  "hashmap_insert_twice ks vs hash keycomp k v v' = do {
     (hm0, e0) \<leftarrow> SUTL_InternalHashmapNew ks vs hash keycomp;
     (p1, hm1, e1) \<leftarrow> SUTLHashmapInsert hm0 k v;
     (p2, hm2, e2) \<leftarrow> SUTLHashmapInsert hm1 k v';
     Some (Size hm2, SUTLHashmapEntries hm2)
   }"

definition hashset_insert_twice ::
  "size_t \<Rightarrow> (cell list \<Rightarrow> size_t option) \<Rightarrow> (cell list \<Rightarrow> cell list \<Rightarrow> int option)
     \<Rightarrow> cell list \<Rightarrow> (size_t \<times> nat) option" where
  "hashset_insert_twice ks hash keycomp k = do {
     (hs0, e0) \<leftarrow> SUTL_InternalHashsetNew ks hash keycomp;
     (p1, hs1, e1) \<leftarrow> SUTLHashsetInsert hs0 k;
     (p2, hs2, e2) \<leftarrow> SUTLHashsetInsert hs1 k;
     Some (Size_s hs2, SUTLHashsetEntries hs2)
   }"

text \<open>The shape of a vector of \<open>char\<close> that was grown once from empty to \<open>sz\<close> bytes:
  the bytes \<open>d\<close> and two bytes of growth slack.\<close>

definition block :: "size_t \<Rightarrow> cell list \<Rightarrow> SUTLVector" where
  "block sz d =
     \<lparr>SUTLVectorSize = sz, SUTLVectorCapacity = sz + 2, SUTLVectorElemsize = 1,
      Data = d @ [None, None]\<rparr>"

text \<open>A new map and a new set of \<open>int\<close>, with the key 25 (and the value 625) stored
  through the scratch buffers, as the insert macros leave them before the call.\<close>

definition int_map_staged :: SUTLHashmap where
  "int_map_staged =
     \<lparr>Size = 0, KeySize = 4, ValueSize = 4,
      ParamK = block 4 (int_object 25), ParamV = block 4 (int_object 625),
      Keys = replicate 32 (SUTL_InternalVectorNew 1),
      Values = replicate 32 (SUTL_InternalVectorNew 1),
      Hash = SUTLHash_int, KeyComp = SUTLCmp_int\<rparr>"

definition int_set_staged :: SUTLHashset where
  "int_set_staged =
     \<lparr>Size_s = 0, KeySize_s = 4, ParamK_s = block 4 (int_object 25),
      Keys_s = replicate 32 (SUTL_InternalVectorNew 1),
      Hash_s = SUTLHash_int, KeyComp_s = SUTLCmp_int\<rparr>"

text \<open>Sequences of calls of the public map interface, run from a given table.  A run is
  \<open>None\<close> when one of its calls is undefined.\<close>

datatype hashmap_call =
  CallInsert "cell list" "cell list"
  | CallErase "cell list"
  | CallGet "cell list"

fun hashmap_step :: "SUTLHashmap \<Rightarrow> hashmap_call \<Rightarrow> SUTLHashmap option" where
  "hashmap_step hm (CallInsert k v) = map_option (\<lambda>(p, hm', e). hm') (SUTLHashmapInsert hm k v)"
| "hashmap_step hm (CallErase k) = map_option fst (SUTLHashmapErase hm k)"
| "hashmap_step hm (CallGet k) = map_option snd (SUTLHashmapGet hm k)"

fun hashmap_run :: "SUTLHashmap \<Rightarrow> hashmap_call list \<Rightarrow> SUTLHashmap option" where
  "hashmap_run hm [] = Some hm"
| "hashmap_run hm (c # cs) = Option.bind (hashmap_step hm c) (\<lambda>hm'. hashmap_run hm' cs)"

text \<open>
  The same sequences on the machine.  Each call comes with the bytes (\<open>env\<close>) that its
  scan finds at the offsets the program never wrote.  A call is well-formed for a table
  (\<open>call_ok\<close>) when its arguments have the sizes of the table's key and value types, the
  hash function is defined on the key, and the compare function is defined on the key
  and every key-sized slot of bytes.
\<close>

fun hashmap_step_raw :: "SUTLHashmap \<Rightarrow> (nat \<Rightarrow> byte) \<times> hashmap_call \<Rightarrow> SUTLHashmap option" where
  "hashmap_step_raw hm (env, CallInsert k v) =
     map_option (\<lambda>(p, hm', e). hm') (SUTLHashmapInsert_raw env hm k v)"
| "hashmap_step_raw hm (env, CallErase k) = map_option fst (SUTLHashmapErase_raw env hm k)"
| "hashmap_step_raw hm (env, CallGet k) = map_option snd (SUTLHashmapGet_raw env hm k)"

fun hashmap_run_raw ::
  "SUTLHashmap \<Rightarrow> ((nat \<Rightarrow> byte) \<times> hashmap_call) list \<Rightarrow> SUTLHashmap option" where
  "hashmap_run_raw hm [] = Some hm"
| "hashmap_run_raw hm (c # cs) = Option.bind (hashmap_step_raw hm c) (\<lambda>hm'. hashmap_run_raw hm' cs)"

definition key_ok ::
  "size_t \<Rightarrow> (cell list \<Rightarrow> size_t option) \<Rightarrow> (cell list \<Rightarrow> cell list \<Rightarrow> int option)
     \<Rightarrow> cell list \<Rightarrow> bool" where
  "key_ok ks hash keycomp k \<longleftrightarrow>
     length k = unat ks \<and> hash k \<noteq> None \<and>
     (\<forall>s. length s = unat ks \<longrightarrow> keycomp k (map Some s) \<noteq> None)"

fun call_ok ::
  "size_t \<Rightarrow> size_t \<Rightarrow> (cell list \<Rightarrow> size_t option) \<Rightarrow> (cell list \<Rightarrow> cell list \<Rightarrow> int option)
     \<Rightarrow> hashmap_call \<Rightarrow> bool" where
  "call_ok ks vs hash keycomp (CallInsert k v) \<longleftrightarrow> key_ok ks hash keycomp k \<and> length v = unat vs"
| "call_ok ks vs hash keycomp (CallErase k) \<longleftrightarrow> key_ok ks hash keycomp k"
| "call_ok ks vs hash keycomp (CallGet k) \<longleftrightarrow> key_ok ks hash keycomp k"

text \<open>Every bucket has as many key entries as value entries, counted as
  \<open>SUTLHashmapEach\<close> counts them.\<close>

definition buckets_consistent :: "SUTLHashmap \<Rightarrow> bool" where
  "buckets_consistent hm \<longleftrightarrow>
     (\<forall>b < unat SUTL_HASHMAP_BUCKET_COUNT.
        SUTLVectorSize (Keys hm ! b) div KeySize hm
          = SUTLVectorSize (Values hm ! b) div ValueSize hm)"

text \<open>
  The invariant behind it.  A bucket vector is a vector of \<open>char\<close> whose capacity is the
  length of its data and whose block is representable.  In a bucket with \<open>n\<close> entries
  that once held up to \<open>m\<close> entries, the key vector has \<open>n * ks\<close> live bytes and at
  most \<open>m * ks + 2\<close> bytes in all, and the value vector has \<open>n * vs\<close> live bytes and at
  least \<open>m * vs\<close> bytes in all.
\<close>

definition bucket_vec :: "SUTLVector \<Rightarrow> bool" where
  "bucket_vec v \<longleftrightarrow>
     SUTLVectorElemsize v = 1 \<and> length (Data v) = unat (SUTLVectorCapacity v) \<and>
     length (Data v) + 24 < 2 ^ 64"

definition bucket_pair :: "nat \<Rightarrow> nat \<Rightarrow> SUTLVector \<Rightarrow> SUTLVector \<Rightarrow> bool" where
  "bucket_pair ks vs kv vv \<longleftrightarrow>
     bucket_vec kv \<and> bucket_vec vv \<and>
     (\<exists>n m. unat (SUTLVectorSize kv) = n * ks \<and> unat (SUTLVectorSize vv) = n * vs \<and> n \<le> m \<and>
        n * ks \<le> length (Data kv) \<and> length (Data kv) \<le> m * ks + 2 \<and>
        m * vs \<le> length (Data vv))"

definition hashmap_inv :: "SUTLHashmap \<Rightarrow> bool" where
  "hashmap_inv hm \<longleftrightarrow>
     0 < KeySize hm \<and> 0 < ValueSize hm \<and>
     length (Keys hm) = unat SUTL_HASHMAP_BUCKET_COUNT \<and>
     length (Values hm) = unat SUTL_HASHMAP_BUCKET_COUNT \<and>
     (\<forall>b < unat SUTL_HASHMAP_BUCKET_COUNT.
        bucket_pair (unat (KeySize hm)) (unat (ValueSize hm)) (Keys hm ! b) (Values hm ! b))"

text \<open>
  The invariant of the runs on the machine: every bucket holds \<open>n\<close> entries for some
  \<open>n\<close> up to a bound \<open>M\<close>, both vectors within their blocks; the scratch buffers hold a
  key and a value; the table's sizes and functions are those it was created with.
\<close>

definition bucket_ok :: "nat \<Rightarrow> nat \<Rightarrow> nat \<Rightarrow> SUTLVector \<Rightarrow> SUTLVector \<Rightarrow> bool" where
  "bucket_ok ks vs M kv vv \<longleftrightarrow>
     bucket_vec kv \<and> bucket_vec vv \<and>
     (\<exists>n. n \<le> M \<and> unat (SUTLVectorSize kv) = n * ks \<and> unat (SUTLVectorSize vv) = n * vs \<and>
        n * ks \<le> length (Data kv) \<and> n * vs \<le> length (Data vv))"

definition table_inv ::
  "size_t \<Rightarrow> size_t \<Rightarrow> (cell list \<Rightarrow> size_t option) \<Rightarrow> (cell list \<Rightarrow> cell list \<Rightarrow> int option)
     \<Rightarrow> nat \<Rightarrow> SUTLHashmap \<Rightarrow> bool" where
  "table_inv ks vs hash keycomp M hm \<longleftrightarrow>
     KeySize hm = ks \<and> ValueSize hm = vs \<and> Hash hm = hash \<and> KeyComp hm = keycomp \<and>
     unat ks \<le> length (Data (ParamK hm)) \<and> unat vs \<le> length (Data (ParamV hm)) \<and>
     length (Keys hm) = unat SUTL_HASHMAP_BUCKET_COUNT \<and>
     length (Values hm) = unat SUTL_HASHMAP_BUCKET_COUNT \<and>
     (\<forall>b < unat SUTL_HASHMAP_BUCKET_COUNT.
        bucket_ok (unat ks) (unat vs) M (Keys hm ! b) (Values hm ! b))"

section \<open>Properties\<close>

subsection \<open>Hashmap insert of a present key\<close>

text \<open>
  Claim C1.  A map from \<open>unsigned char\<close> to \<open>int\<close> holds the keys 1 and 33, both in
  bucket 1, so key 33 is entry 1 of the bucket and its value slot starts at byte
  \<open>1 * ValueSize = 4\<close> of the bucket's value array, where \<open>SUTLHashmapGet\<close> finds it.
  Inserting key 33 again returns the pointer \<open>Values[index] + 1 * KeySize\<close>, byte 1 of
  the value array, inside the value of entry 0: the returned pointer is not the slot of
  the stored value.
\<close>

theorem hashmap_insert_present_key_pointer:
  "uchar_int_map_reinsert = Some (Some (1, 1), Some (1, 4))"
  by code_simp

subsection \<open>Vector erase past the end\<close>

text \<open>
  Claim C3.  \<open>SUTLVectorPop\<close> on an empty vector of \<open>int\<close> calls
  \<open>SUTL_InternalVectorEraseN\<close> with \<open>at = SIZE_MAX\<close> and \<open>count = 1\<close>.  Here
  \<open>at > size\<close>, but \<open>at + count\<close> wraps to 0, so the guard \<open>at + count > size\<close> is
  false: no error is reported and the size becomes \<open>SIZE_MAX\<close> instead of staying 0.
\<close>

theorem vector_erase_past_end_wraps:
  "SUTLVectorPop (SUTL_InternalVectorNew 4)
     = Some (SUTL_InternalVectorNew 4 \<lparr>SUTLVectorSize := - 1\<rparr>, [])
   \<and> SUTL_InternalVectorEraseN (SUTL_InternalVectorNew 4) (- 1) 1
     = Some (SUTL_InternalVectorNew 4 \<lparr>SUTLVectorSize := - 1\<rparr>, [])"
  by (simp add: SUTLVectorPop_def SUTLVectorErase_def SUTL_InternalVectorEraseN_def
      SUTL_InternalVectorNew_def)

subsection \<open>The byte-string hash\<close>

text \<open>
  Claim C8.  For the one-byte string \<open>a\<close> there is no full chunk and one tail byte.  The
  tail loop accesses memory at the address \<open>SIZE_MAX\<close> (the value of \<open>hash\<close>) and never
  assigns \<open>hash\<close>, so the function has no defined result; for a string of exactly one
  chunk the tail loop is skipped and the result is the XOR of \<open>SIZE_MAX\<close> and the chunk.
\<close>

theorem hash_string_tail_undefined:
  "hash_of_literal ''a'' = None \<and> hash_of_literal ''abcdefgh'' = Some 10923649785501883806"
  by code_simp

subsection \<open>The bound of the erase scan\<close>

text \<open>
  Claim C10.  A map from \<open>int\<close> to \<open>int\<close> holds the single key 25; key 57 hashes to the
  same bucket.  The bucket's key vector has size 4 (bytes), one entry, in a block of 6
  bytes.  The scan of \<open>SUTL_InternalHashmapErase\<close> runs \<open>i\<close> up to the byte count 4: at
  \<open>i = 1\<close> it compares the slot at bytes 4 to 7, past the live entry and past the block,
  which is undefined.  With two keys stored and 57 erased, a second erase of 57 compares
  slot 1 again, now the stale bytes of the erased key, takes them for a match and
  decrements \<open>Size\<close> to 0 while key 25 is still stored (the bucket keeps 4 bytes and
  \<open>SUTLHashmapGet\<close> finds the key).  The scan of \<open>SUTL_InternalHashsetErase\<close> has the
  same bound and leaves the block in the same way.
\<close>

theorem hashmap_erase_scan_past_live_entries:
  "int_map_erase_absent = None \<and> int_map_erase_twice = Some (4, 0, Some (25, 0), [])
   \<and> int_set_erase_absent = None"
  by code_simp

subsection \<open>Arithmetic on \<open>size_t\<close> without wrap-around\<close>

lemma unat_size_t_bound: "unat (a :: size_t) < 2 ^ 64"
  using unsigned_less [of a, where ?'a = nat] by simp

lemma unat_add_nowrap: "unat a + unat b < 2 ^ 64 \<Longrightarrow> unat (a + b :: size_t) = unat a + unat b"
  by (simp add: unat_add_lem [THEN iffD1])

lemma unat_mult_nowrap: "unat a * unat b < 2 ^ 64 \<Longrightarrow> unat (a * b :: size_t) = unat a * unat b"
  by (simp add: unat_mult_lem [THEN iffD1])

subsection \<open>Vector erase inside the range of \<open>size_t\<close>\<close>

text \<open>Where \<open>at + count\<close> does not wrap, an erase that starts past the end is rejected
  with the message and changes nothing; an erase that starts inside and runs past the
  end removes exactly the elements from \<open>at\<close> on, without a message.\<close>

lemma vector_erase_rejected_without_wrap:
  assumes "SUTLVectorSize v < at" and "unat at + unat count < 2 ^ 64"
  shows "SUTL_InternalVectorEraseN v at count
    = Some (v, [''Elements requested to be erased don't exist.''])"
proof -
  have "unat (at + count) = unat at + unat count"
    using assms(2) by (rule unat_add_nowrap)
  then have "SUTLVectorSize v < at + count"
    using assms(1) by (simp add: word_less_nat_alt)
  then show ?thesis
    using assms(1) by (simp add: SUTL_InternalVectorEraseN_def)
qed

lemma vector_erase_clamped:
  assumes "at \<le> SUTLVectorSize v" and "SUTLVectorSize v < at + count"
  shows "SUTL_InternalVectorEraseN v at count = Some (v\<lparr>SUTLVectorSize := at\<rparr>, [])"
  using assms by (simp add: SUTL_InternalVectorEraseN_def Let_def)

subsection \<open>Insert then erase on a vector\<close>

lemma elems_cong:
  assumes "SUTLVectorSize v = SUTLVectorSize w" "SUTLVectorElemsize v = SUTLVectorElemsize w"
    "take (unat (SUTLVectorSize v) * unat (SUTLVectorElemsize v)) (Data v)
     = take (unat (SUTLVectorSize v) * unat (SUTLVectorElemsize v)) (Data w)"
  shows "SUTLVectorElems v = SUTLVectorElems w"
proof -
  let ?e = "unat (SUTLVectorElemsize v)" and ?S = "unat (SUTLVectorSize v)"
  have "take ?e (drop (j * ?e) (Data v)) = take ?e (drop (j * ?e) (Data w))" if "j < ?S" for j
  proof -
    have le: "j * ?e + ?e \<le> ?S * ?e"
      using that by (metis Suc_leI mult_Suc mult_le_mono1 add.commute)
    have "take ?e (drop (j * ?e) (Data v)) = take ?e (drop (j * ?e) (take (?S * ?e) (Data v)))"
      using le by (simp add: drop_take min_def)
    also have "\<dots> = take ?e (drop (j * ?e) (take (?S * ?e) (Data w)))"
      using assms(3) by simp
    also have "\<dots> = take ?e (drop (j * ?e) (Data w))"
      using le by (simp add: drop_take min_def)
    finally show ?thesis .
  qed
  then show ?thesis
    using assms(1,2) by (simp add: SUTLVectorElems_def)
qed


lemma resize_plus_one:
  assumes wf: "vector_wf a"
    and fits: "SUTLVectorSize a = SUTLVectorCapacity a \<longrightarrow>
      24 + (unat (SUTLVectorSize a) + 3) * unat (SUTLVectorElemsize a) < 2 ^ 64"
  shows "\<exists>D1 C1. SUTL_InternalVectorResize a (SUTLVectorSize a + 1)
      = Some (a\<lparr>Data := D1, SUTLVectorCapacity := C1, SUTLVectorSize := SUTLVectorSize a + 1\<rparr>, [])
    \<and> (unat (SUTLVectorSize a) + 1) * unat (SUTLVectorElemsize a) \<le> length D1
    \<and> take (length (Data a)) D1 = Data a
    \<and> unat (SUTLVectorSize a + 1) = unat (SUTLVectorSize a) + 1
    \<and> length D1 < 2 ^ 64"
proof -
  let ?S = "unat (SUTLVectorSize a)" and ?C = "unat (SUTLVectorCapacity a)"
  let ?e = "unat (SUTLVectorElemsize a)"
  have e: "0 < ?e" using wf by (simp add: vector_wf_def word_less_nat_alt)
  have SC: "?S \<le> ?C" using wf by (simp add: vector_wf_def word_le_nat_alt)
  have len: "length (Data a) = ?C * ?e" using wf by (simp add: vector_wf_def)
  have cap: "24 + ?C * ?e < 2 ^ 64" using wf by (simp add: vector_wf_def)
  have "?C \<le> ?C * ?e" using e by simp
  with cap SC have Sb: "?S + 24 < 2 ^ 64" by linarith
  have S1: "unat (SUTLVectorSize a + 1) = ?S + 1"
    using Sb by (simp add: unat_add_nowrap)
  have lt: "SUTLVectorSize a < SUTLVectorSize a + 1"
    using S1 by (simp add: word_less_nat_alt)
  show ?thesis
  proof (cases "SUTLVectorSize a = SUTLVectorCapacity a")
    case True
    then have fit: "24 + (?S + 3) * ?e < 2 ^ 64" using fits by simp
    have "?S + 3 \<le> (?S + 3) * ?e" using e by simp
    with fit have "?S + 3 < 2 ^ 64" by linarith
    then have S3: "unat (SUTLVectorSize a + 1 + 2) = ?S + 3"
      using S1 by (simp add: unat_add_nowrap)
    have prod: "unat ((SUTLVectorSize a + 1 + 2) * SUTLVectorElemsize a) = (?S + 3) * ?e"
      using fit S3 by (simp add: unat_mult_nowrap)
    have req: "unat (8 * 3 + (SUTLVectorSize a + 1 + 2) * SUTLVectorElemsize a) = 24 + (?S + 3) * ?e"
      using fit prod by (simp add: unat_add_nowrap)
    have nlt: "\<not> SUTLVectorSize a + 1 + 2 < SUTLVectorSize a"
      using S3 by (simp add: word_less_nat_alt)
    have clt: "SUTLVectorCapacity a < SUTLVectorSize a + 1"
      using True lt by simp
    have re: "SHRN_REALLOC (Data a) ((?S + 3) * ?e) = Data a @ replicate (3 * ?e) None"
      using len True by (simp add: SHRN_REALLOC_def add_mult_distrib)
    have "SUTL_InternalVectorResize a (SUTLVectorSize a + 1)
      = Some (a\<lparr>Data := Data a @ replicate (3 * ?e) None,
          SUTLVectorCapacity := SUTLVectorSize a + 1 + 2,
          SUTLVectorSize := SUTLVectorSize a + 1\<rparr>, [])"
      using lt clt nlt req re
      by (simp add: SUTL_InternalVectorResize_def SUTL_InternalVectorReserve_def Let_def)
    moreover have "(?S + 1) * ?e \<le> length (Data a @ replicate (3 * ?e) None)"
      using len True by (simp add: add_mult_distrib)
    moreover have "length (Data a @ replicate (3 * ?e) None) < 2 ^ 64"
      using len True fit by (simp add: add_mult_distrib)
    ultimately show ?thesis using S1 by auto
  next
    case False
    then have "?S \<noteq> ?C" by (simp add: word_unat_eq_iff)
    with SC have "?S + 1 \<le> ?C" by simp
    then have nclt: "\<not> SUTLVectorCapacity a < SUTLVectorSize a + 1"
      using S1 by (simp add: word_less_nat_alt)
    have "SUTL_InternalVectorResize a (SUTLVectorSize a + 1)
      = Some (a\<lparr>Data := Data a, SUTLVectorCapacity := SUTLVectorCapacity a,
          SUTLVectorSize := SUTLVectorSize a + 1\<rparr>, [])"
      using nclt by (simp add: SUTL_InternalVectorResize_def)
    moreover have "(?S + 1) * ?e \<le> length (Data a)"
      using len \<open>?S + 1 \<le> ?C\<close> by (metis mult_le_mono1)
    ultimately show ?thesis using S1 len cap
      by (intro exI [of _ "Data a"] exI [of _ "SUTLVectorCapacity a"]) simp
  qed
qed


lemma insert_then_erase_data:
  fixes D1 :: "'a list"
  assumes len: "a + e + b \<le> length D1" and x: "e \<le> length x"
  defines "D2 \<equiv> take (a + e) D1 @ take b (drop a D1) @ drop (a + e + b) D1"
  defines "D3 \<equiv> take a D2 @ take e x @ drop (a + e) D2"
  defines "D4 \<equiv> take a D3 @ take b (drop (a + e) D3) @ drop (a + b) D3"
  shows "take (a + b) D4 = take (a + b) D1" and "length D2 = length D1" and "length D3 = length D1"
proof -
  show l2: "length D2 = length D1"
    using len unfolding D2_def by (auto simp: min_def)
  show l3: "length D3 = length D1"
    using len x l2 unfolding D3_def by (auto simp: min_def)
  have d3: "drop (a + e) D3 = drop (a + e) D2"
    using len l2 x unfolding D3_def by (auto simp: min_def)
  have d2: "drop (a + e) D2 = take b (drop a D1) @ drop (a + e + b) D1"
    using len unfolding D2_def by (auto simp: min_def)
  have t1: "take b (drop (a + e) D3) = take b (drop a D1)"
    using d3 d2 len by (auto simp: min_def)
  have t3: "take a D3 = take a D1"
    using len l2 unfolding D3_def D2_def by (auto simp: min_def)
  have "take (a + b) D4 = take a D3 @ take b (drop (a + e) D3)"
    using l3 len unfolding D4_def by (auto simp: min_def)
  also have "\<dots> = take a D1 @ take b (drop a D1)"
    using t1 t3 by simp
  also have "\<dots> = take (a + b) D1"
    by (simp add: take_add)
  finally show "take (a + b) D4 = take (a + b) D1" .
qed


text \<open>
  Claim C9.  For a well-formed vector \<open>a\<close>, an index \<open>i\<close> up to its size and an element
  \<open>x\<close> (at least \<open>Elemsize\<close> readable bytes), \<open>SUTLVectorInsert\<close> succeeds without a
  message, \<open>SUTLVectorErase\<close> at the same index succeeds without a message, and the
  result has the size and the element sequence of \<open>a\<close>.  When the insert must grow the
  block (size equal to capacity), the requested block of \<open>size + 3\<close> elements has to be
  representable in \<open>size_t\<close>.
\<close>

theorem vector_insert_erase_inverse:
  assumes wf: "vector_wf a"
    and i: "i \<le> SUTLVectorSize a"
    and x: "unat (SUTLVectorElemsize a) \<le> length x"
    and fits: "SUTLVectorSize a = SUTLVectorCapacity a \<longrightarrow>
      24 + (unat (SUTLVectorSize a) + 3) * unat (SUTLVectorElemsize a) < 2 ^ 64"
  shows "\<exists>p a1 a2. SUTLVectorInsert a i x = Some (Some p, a1, [])
    \<and> SUTLVectorErase a1 i = Some (a2, [])
    \<and> SUTLVectorSize a2 = SUTLVectorSize a
    \<and> SUTLVectorElems a2 = SUTLVectorElems a"
proof -
  let ?S = "unat (SUTLVectorSize a)" and ?e = "unat (SUTLVectorElemsize a)" and ?n = "unat i"
  let ?a = "?e * ?n" and ?b = "(?S - ?n) * ?e"
  obtain D1 C1 where
    rs: "SUTL_InternalVectorResize a (SUTLVectorSize a + 1)
      = Some (a\<lparr>Data := D1, SUTLVectorCapacity := C1, SUTLVectorSize := SUTLVectorSize a + 1\<rparr>, [])"
    and len1: "(?S + 1) * ?e \<le> length D1"
    and pre: "take (length (Data a)) D1 = Data a"
    and S1: "unat (SUTLVectorSize a + 1) = ?S + 1"
    and lt: "length D1 < 2 ^ 64"
    using resize_plus_one [OF wf fits] by blast
  have n: "?n \<le> ?S" using i by (simp add: word_le_nat_alt)
  have ab: "?a + ?b = ?S * ?e"
    using n by (metis add_mult_distrib le_add_diff_inverse mult.commute)
  have abe: "?a + ?e + ?b \<le> length D1"
    using ab len1 by (simp add: algebra_simps)
  have lenD: "?S * ?e \<le> length (Data a)"
    using wf by (simp add: vector_wf_def word_le_nat_alt)
  have "?S + 1 < 2 ^ 64"
    using unat_size_t_bound [of "SUTLVectorSize a + 1"] S1 by simp
  then have n1: "unat (i + 1) = ?n + 1"
    using n by (simp add: unat_add_nowrap)
  have o1: "unat (SUTLVectorElemsize a * i) = ?a"
    using abe lt by (simp add: unat_mult_nowrap)
  have o2: "unat (SUTLVectorElemsize a * (i + 1)) = ?a + ?e"
    using abe lt n1 by (simp add: unat_mult_nowrap)
  have o3: "unat ((SUTLVectorSize a - i) * SUTLVectorElemsize a) = ?b"
    using abe lt i by (simp add: unat_mult_nowrap unat_sub)
  define D2 where "D2 = take (?a + ?e) D1 @ take ?b (drop ?a D1) @ drop (?a + ?e + ?b) D1"
  define D3 where "D3 = take ?a D2 @ take ?e x @ drop (?a + ?e) D2"
  define D4 where "D4 = take ?a D3 @ take ?b (drop (?a + ?e) D3) @ drop (?a + ?b) D3"
  have res: "take (?a + ?b) D4 = take (?a + ?b) D1" and l2: "length D2 = length D1"
    and l3: "length D3 = length D1"
    using insert_then_erase_data [OF abe x] unfolding D2_def D3_def D4_def by blast+
  have D2_eq: "i = SUTLVectorSize a \<Longrightarrow> D2 = D1"
    unfolding D2_def by simp
  have D4_eq: "i = SUTLVectorSize a \<Longrightarrow> D4 = D3"
    unfolding D4_def by simp
  let ?a1 = "a\<lparr>Data := D3, SUTLVectorCapacity := C1, SUTLVectorSize := SUTLVectorSize a + 1\<rparr>"
  let ?a2 = "a\<lparr>Data := D4, SUTLVectorCapacity := C1, SUTLVectorSize := SUTLVectorSize a\<rparr>"
  have ins: "SUTLVectorInsert a i x = Some (Some ?a, ?a1, [])"
  proof (cases "i = SUTLVectorSize a")
    case True
    then show ?thesis
      using rs o1 abe x D2_eq l2 unfolding D3_def
      by (simp add: SUTLVectorInsert_def SUTL_InternalVectorInsertN_def SUTLVectorOffset_def
          SHRN_MEMCPY_def Let_def)
  next
    case False
    then show ?thesis
      using rs o1 o2 o3 abe x i l2 unfolding D3_def D2_def
      by (simp add: SUTLVectorInsert_def SUTL_InternalVectorInsertN_def SUTLVectorOffset_def
          SHRN_MEMCPY_def SHRN_MEMMOVE_def Let_def)
  qed
  have ngt: "\<not> i + 1 > SUTLVectorSize a + 1"
    using n n1 S1 by (simp add: word_less_nat_alt)
  have neq: "(i + 1 = SUTLVectorSize a + 1) = (i = SUTLVectorSize a)"
    by simp
  have ers: "SUTLVectorErase ?a1 i = Some (?a2, [])"
  proof (cases "i = SUTLVectorSize a")
    case True
    then show ?thesis
      using ngt D4_eq
      by (simp add: SUTLVectorErase_def SUTL_InternalVectorEraseN_def Let_def)
  next
    case False
    then show ?thesis
      using ngt neq o1 o2 o3 abe l3 unfolding D4_def
      by (simp add: SUTLVectorErase_def SUTL_InternalVectorEraseN_def SUTLVectorOffset_def
          SHRN_MEMMOVE_def Let_def)
  qed
  have "take (?S * ?e) D4 = take (?S * ?e) (Data a)"
  proof -
    have "take (?S * ?e) D1 = take (?S * ?e) (take (length (Data a)) D1)"
      using lenD by (simp add: min_def)
    then show ?thesis using res ab pre by simp
  qed
  then have "SUTLVectorElems ?a2 = SUTLVectorElems a"
    by (intro elems_cong) simp_all
  with ins ers show ?thesis by auto
qed

theorem vector_insert_erase_inverse_witness:
  "vector_wf tmparr_vector \<and> 1 \<le> SUTLVectorSize tmparr_vector
   \<and> unat (SUTLVectorElemsize tmparr_vector) \<le> length (int_object 45)
   \<and> SUTLVectorSize tmparr_vector \<noteq> SUTLVectorCapacity tmparr_vector
   \<and> (\<exists>p a1 a2. SUTLVectorInsert tmparr_vector 1 (int_object 45) = Some (Some p, a1, [])
      \<and> SUTLVectorErase a1 1 = Some (a2, [])
      \<and> SUTLVectorSize a2 = SUTLVectorSize tmparr_vector
      \<and> SUTLVectorElems a2 = SUTLVectorElems tmparr_vector)"
proof -
  have wf: "vector_wf tmparr_vector"
    by (simp add: vector_wf_def tmparr_vector_def int_object_def)
  have i: "1 \<le> SUTLVectorSize tmparr_vector"
    by (simp add: tmparr_vector_def)
  have x: "unat (SUTLVectorElemsize tmparr_vector) \<le> length (int_object 45)"
    by (simp add: tmparr_vector_def int_object_def)
  have ne: "SUTLVectorSize tmparr_vector \<noteq> SUTLVectorCapacity tmparr_vector"
    by (simp add: tmparr_vector_def)
  show ?thesis
    using wf i x ne vector_insert_erase_inverse [OF wf i x] by simp
qed

subsection \<open>String slices\<close>

lemma digits_string_built:
  "SUTLStringAppendP SUTLStringNew (c_literal ''0123456789'') = Some (Some 0, digits_string, [])"
  by code_simp

lemma slice_result:
  assumes at: "at < SUTLVectorSize str"
    and live: "unat (SUTLVectorSize str) \<le> length (Data str)"
    and sz': "sz' = (if sz \<noteq> 0 then sz else SUTLVectorSize str - at)"
    and fit: "unat sz' + 26 < 2 ^ 64"
    and sum: "unat at + unat sz' < 2 ^ 64"
    and m: "m = min (unat sz') (unat (SUTLVectorSize str) - unat at)"
  shows "SUTL_InternalStringSlice str at sz =
    Some (Some \<lparr>SUTLVectorSize = sz', SUTLVectorCapacity = sz' + 2, SUTLVectorElemsize = 1,
       Data = take m (drop (unat at) (Data str)) @ replicate (unat sz' + 2 - m) None\<rparr>, [])"
proof -
  let ?n = "unat (SUTLVectorSize str)"
  have atn: "unat at < ?n" using at by (simp add: word_less_nat_alt)
  have le: "at \<le> SUTLVectorSize str" using at by simp
  have sub: "unat (SUTLVectorSize str - at) = ?n - unat at" using le by (rule unat_sub)
  have nz: "sz' \<noteq> 0"
  proof (cases "sz = 0")
    case True
    then have "sz' = SUTLVectorSize str - at" using sz' by simp
    then have "unat sz' = ?n - unat at" using sub by simp
    then show ?thesis using atn by (auto simp: unat_0_iff)
  next
    case False
    then show ?thesis using sz' by simp
  qed
  then have pos: "0 < sz'" by (simp add: word_greater_zero_iff)
  have u2: "unat (sz' + 2) = unat sz' + 2"
    using fit by (simp add: unat_add_nowrap)
  have req: "unat (8 * 3 + (sz' + 2) * 1) = 26 + unat sz'"
    using fit u2 by (simp add: unat_add_nowrap)
  have nlt: "\<not> sz' + 2 < 0" by simp
  define k where "k = unat sz' + 2"
  have rs: "SUTL_InternalVectorResize SUTLStringNew sz'
    = Some (\<lparr>SUTLVectorSize = sz', SUTLVectorCapacity = sz' + 2, SUTLVectorElemsize = 1,
        Data = replicate k None\<rparr>, [])"
    using pos req unfolding k_def
    by (simp add: SUTL_InternalVectorResize_def SUTL_InternalVectorReserve_def SUTLStringNew_def
        SUTL_InternalVectorNew_def SHRN_REALLOC_def Let_def)
  have us: "unat (at + sz') = unat at + unat sz'"
    using sum by (simp add: unat_add_nowrap)
  have sz2: "unat (if at + sz' > SUTLVectorSize str then SUTLVectorSize str - at else sz') = m"
    using us atn m sub by (auto simp: word_less_nat_alt min_def)
  have mle: "m \<le> length (Data str) - unat at" "m \<le> k"
    using m live unfolding k_def by (auto simp: min_def)
  have nge: "\<not> SUTLVectorSize str \<le> at" using at by simp
  have "SUTL_InternalStringSlice str at sz = do {
      (slice1, e) \<leftarrow> SUTL_InternalVectorResize SUTLStringNew sz';
      d \<leftarrow> SHRN_MEMCPY (Data slice1) 0 (drop (unat at) (Data str))
        (unat (if at + sz' > SUTLVectorSize str then SUTLVectorSize str - at else sz'));
      Some (Some (slice1\<lparr>Data := d\<rparr>), e) }"
    using nge sz' by (simp add: SUTL_InternalStringSlice_def Let_def)
  also have "\<dots> = Some (Some \<lparr>SUTLVectorSize = sz', SUTLVectorCapacity = sz' + 2, SUTLVectorElemsize = 1,
       Data = take m (drop (unat at) (Data str)) @ replicate (k - m) None\<rparr>, [])"
    unfolding rs sz2 using mle by (simp add: SHRN_MEMCPY_def)
  finally show ?thesis unfolding k_def .
qed

text \<open>
  Claim C6.  \<open>SUTL_InternalStringSlice\<close> reports the error and returns \<open>NULL\<close> when
  \<open>at\<close> is at least the length of \<open>str\<close>, also at \<open>at\<close> equal to the length.  Otherwise
  (for a string whose live bytes lie in its block, and a request whose block size and
  end index are representable in \<open>size_t\<close>) it reports nothing and returns a new string
  whose size is the effective requested length \<open>sz'\<close> (\<open>sz\<close>, or the rest of \<open>str\<close> when
  \<open>sz = 0\<close>), not clamped, and whose first \<open>min sz' (n - at)\<close> bytes are those of \<open>str\<close> from
  \<open>at\<close> on.
\<close>

theorem string_slice_contract:
  "(SUTLVectorSize str \<le> at \<longrightarrow>
      SUTL_InternalStringSlice str at sz
        = Some (None, [''Invalid index specified for slicing string.'']))
   \<and> (let sz' = (if sz \<noteq> 0 then sz else SUTLVectorSize str - at);
           m = min (unat sz') (unat (SUTLVectorSize str) - unat at) in
        at < SUTLVectorSize str \<and> unat (SUTLVectorSize str) \<le> length (Data str)
          \<and> unat sz' + 26 < 2 ^ 64 \<and> unat at + unat sz' < 2 ^ 64 \<longrightarrow>
        (\<exists>slice. SUTL_InternalStringSlice str at sz = Some (Some slice, [])
           \<and> SUTLVectorSize slice = sz'
           \<and> take m (Data slice) = take m (drop (unat at) (Data str))))"
proof (intro conjI)
  show "SUTLVectorSize str \<le> at \<longrightarrow>
      SUTL_InternalStringSlice str at sz
        = Some (None, [''Invalid index specified for slicing string.''])"
    by (simp add: SUTL_InternalStringSlice_def)
next
  define sz' where "sz' = (if sz \<noteq> 0 then sz else SUTLVectorSize str - at)"
  define m where "m = min (unat sz') (unat (SUTLVectorSize str) - unat at)"
  have "\<exists>slice. SUTL_InternalStringSlice str at sz = Some (Some slice, [])
           \<and> SUTLVectorSize slice = sz'
           \<and> take m (Data slice) = take m (drop (unat at) (Data str))"
    if "at < SUTLVectorSize str" "unat (SUTLVectorSize str) \<le> length (Data str)"
      "unat sz' + 26 < 2 ^ 64" "unat at + unat sz' < 2 ^ 64"
  proof -
    have "m \<le> length (drop (unat at) (Data str))"
      using that(2) unfolding m_def by (simp add: min_def) arith
    then show ?thesis
      using slice_result [OF that(1) that(2) sz'_def that(3) that(4) m_def] by simp
  qed
  then show "let sz' = (if sz \<noteq> 0 then sz else SUTLVectorSize str - at);
           m = min (unat sz') (unat (SUTLVectorSize str) - unat at) in
        at < SUTLVectorSize str \<and> unat (SUTLVectorSize str) \<le> length (Data str)
          \<and> unat sz' + 26 < 2 ^ 64 \<and> unat at + unat sz' < 2 ^ 64 \<longrightarrow>
        (\<exists>slice. SUTL_InternalStringSlice str at sz = Some (Some slice, [])
           \<and> SUTLVectorSize slice = sz'
           \<and> take m (Data slice) = take m (drop (unat at) (Data str)))"
    unfolding sz'_def m_def Let_def by blast
qed

theorem string_slice_contract_witness:
  "SUTLVectorSize digits_string \<le> 10
   \<and> SUTL_InternalStringSlice digits_string 10 2
        = Some (None, [''Invalid index specified for slicing string.''])
   \<and> 7 < SUTLVectorSize digits_string
   \<and> unat (SUTLVectorSize digits_string) \<le> length (Data digits_string)
   \<and> (\<exists>slice. SUTL_InternalStringSlice digits_string 7 5 = Some (Some slice, [])
        \<and> SUTLVectorSize slice = 5
        \<and> take 3 (Data slice) = map (\<lambda>c. Some (of_char c)) ''789'')"
  using string_slice_contract [of digits_string 10 2] string_slice_contract [of digits_string 7 5]
  by (simp add: digits_string_def)

text \<open>
  Claim C7, as stated: the bytes of the slice past the copied ones are zero.  For
  \<open>Slice("0123456789", 7, 5)\<close> the slice has size 5 and holds the three bytes \<open>789\<close>;
  bytes 3 and 4 (and the two bytes of growth slack) are never written and keep the
  content the allocator left, so they are not \<open>Some 0\<close>.
\<close>

theorem string_slice_padding_counterexample:
  "SUTL_InternalStringSlice digits_string 7 5
     = Some (Some \<lparr>SUTLVectorSize = 5, SUTLVectorCapacity = 7, SUTLVectorElemsize = 1,
          Data = [Some 55, Some 56, Some 57, None, None, None, None]\<rparr>, [])"
  by code_simp

text \<open>
  Claim C7, amended.  For a slice request with \<open>at\<close> below the length \<open>n\<close> of \<open>str\<close> and
  \<open>at + sz\<close> above it (both the block size and \<open>at + sz\<close> representable in \<open>size_t\<close>),
  every byte of the returned slice at a position from \<open>n - at\<close> up to its size is
  indeterminate: the slice is neither zero-padded nor null-terminated.
\<close>

theorem string_slice_tail_indeterminate:
  assumes "at < SUTLVectorSize str"
    and "unat (SUTLVectorSize str) \<le> length (Data str)"
    and "unat (SUTLVectorSize str) < unat at + unat sz"
    and "unat sz + 26 < 2 ^ 64"
    and "unat at + unat sz < 2 ^ 64"
    and "unat (SUTLVectorSize str) - unat at \<le> j"
    and "j < unat sz"
  shows "\<exists>slice. SUTL_InternalStringSlice str at sz = Some (Some slice, [])
    \<and> SUTLVectorSize slice = sz \<and> Data slice ! j = None"
proof -
  let ?m = "unat (SUTLVectorSize str) - unat at"
  have nz: "sz \<noteq> 0"
    using assms(7) by (auto simp: unat_0_iff)
  then have sz: "sz = (if sz \<noteq> 0 then sz else SUTLVectorSize str - at)"
    by simp
  have m: "?m = min (unat sz) ?m"
    using assms(3) by (simp add: min_def) arith
  have len: "length (take ?m (drop (unat at) (Data str))) = ?m"
    using assms(2) by (simp add: min_def) arith
  have "(take ?m (drop (unat at) (Data str)) @ replicate (unat sz + 2 - ?m) None) ! j = None"
    using len assms(6,7) by (simp add: nth_append)
  then show ?thesis
    using slice_result [OF assms(1) assms(2) sz assms(4) assms(5) m] by simp
qed

theorem string_slice_tail_indeterminate_witness:
  "7 < SUTLVectorSize digits_string
   \<and> unat (SUTLVectorSize digits_string) \<le> length (Data digits_string)
   \<and> unat (SUTLVectorSize digits_string) < unat (7 :: size_t) + unat (5 :: size_t)
   \<and> unat (SUTLVectorSize digits_string) - unat (7 :: size_t) \<le> 3
   \<and> 3 < unat (5 :: size_t)
   \<and> (\<exists>slice. SUTL_InternalStringSlice digits_string 7 5 = Some (Some slice, [])
        \<and> SUTLVectorSize slice = 5 \<and> Data slice ! 3 = None)"
  using string_slice_tail_indeterminate [of 7 digits_string 5 3]
  by (simp add: digits_string_def)

subsection \<open>Operations on a bucket that was grown once\<close>

declare SUTL_InternalHashmapInsert_loop.simps [simp del]
declare SUTL_InternalHashmapErase_loop.simps [simp del]
declare SUTL_InternalHashmapGet_loop.simps [simp del]
declare SUTL_InternalHashsetInsert_loop.simps [simp del]
declare SUTL_InternalHashsetErase_loop.simps [simp del]
declare SUTL_InternalHashsetGet_loop.simps [simp del]

lemma bucket_index_less: "unat (h mod SUTL_HASHMAP_BUCKET_COUNT) < 32"
proof -
  have "h mod 32 < 32" by (rule word_mod_less_divisor) simp
  then show ?thesis by (simp add: SUTL_HASHMAP_BUCKET_COUNT_def word_less_nat_alt)
qed

lemma realloc_empty: "SHRN_REALLOC [] (n + 2) = replicate n None @ [None, None]"
  by (simp add: SHRN_REALLOC_def replicate_app_Cons_same)

lemma resize_new:
  assumes "0 < sz" and "unat sz + 26 < 2 ^ 64"
  shows "SUTL_InternalVectorResize (SUTL_InternalVectorNew 1) sz
    = Some (block sz (replicate (unat sz) None), [])"
proof -
  have u2: "unat (sz + 2) = unat sz + 2"
    using assms(2) by (simp add: unat_add_nowrap)
  have req: "unat (8 * 3 + (sz + 2) * 1) - 24 = unat sz + 2" "\<not> unat (8 * 3 + (sz + 2) * 1) < 24"
    using assms(2) u2 by (simp_all add: unat_add_nowrap)
  have "SUTL_InternalVectorResize (SUTL_InternalVectorNew 1) sz
    = Some (\<lparr>SUTLVectorSize = sz, SUTLVectorCapacity = sz + 2, SUTLVectorElemsize = 1,
        Data = SHRN_REALLOC [] (unat sz + 2)\<rparr>, [])"
    using assms(1) req
    by (simp add: SUTL_InternalVectorResize_def SUTL_InternalVectorReserve_def
        SUTL_InternalVectorNew_def Let_def)
  then show ?thesis
    unfolding realloc_empty block_def .
qed

lemma store_block:
  assumes "length x = unat sz" and "length d = unat sz"
  shows "store (block sz d) x = Some (block sz x)"
  using assms by (simp add: store_def block_def SHRN_MEMCPY_def)

lemma pushn_new:
  assumes "0 < sz" and "unat sz + 26 < 2 ^ 64" and "length x = unat sz"
  shows "SUTLVectorPushN (SUTL_InternalVectorNew 1) (x @ r) sz = Some (Some 0, block sz x, [])"
proof -
  have rs: "SUTL_InternalVectorResize (SUTL_InternalVectorNew 1) (0 + sz)
    = Some (block sz (replicate (unat sz) None), [])"
    using resize_new [OF assms(1,2)] by simp
  show ?thesis
    using rs assms(3)
    by (simp add: SUTLVectorPushN_def SUTL_InternalVectorInsertN_def SUTLVectorOffset_def
        SHRN_MEMCPY_def block_def SUTL_InternalVectorNew_def)
qed

lemma load_block: "length d = unat sz \<Longrightarrow> load (Data (block sz d)) 0 (unat sz) = Some d"
  by (simp add: load_def block_def)

lemma erase_block:
  "SUTL_InternalVectorEraseN (block sz d) (0 * sz) sz = Some ((block sz d)\<lparr>SUTLVectorSize := 0\<rparr>, [])"
  by (simp add: SUTL_InternalVectorEraseN_def block_def)

lemma bucket_index_in_range:
  "unat (h mod SUTL_HASHMAP_BUCKET_COUNT) < unat SUTL_HASHMAP_BUCKET_COUNT"
  using bucket_index_less [of h] by (simp add: SUTL_HASHMAP_BUCKET_COUNT_def)

lemma size_t_div_self: "0 < (ks :: size_t) \<Longrightarrow> ks div ks = 1"
  by (simp add: div_word_self)

subsection \<open>A map with one key\<close>

lemma hashmap_new:
  assumes "0 < ks" "unat ks + 26 < 2 ^ 64" "0 < vs" "unat vs + 26 < 2 ^ 64"
  shows "SUTL_InternalHashmapNew ks vs hash keycomp =
    Some (\<lparr>Size = 0, KeySize = ks, ValueSize = vs,
       ParamK = block ks (replicate (unat ks) None), ParamV = block vs (replicate (unat vs) None),
       Keys = replicate (unat SUTL_HASHMAP_BUCKET_COUNT) (SUTL_InternalVectorNew 1),
       Values = replicate (unat SUTL_HASHMAP_BUCKET_COUNT) (SUTL_InternalVectorNew 1),
       Hash = hash, KeyComp = keycomp\<rparr>, [])"
  using assms by (simp add: SUTL_InternalHashmapNew_def resize_new)

lemma hashmap_insert_empty_bucket:
  assumes ks: "KeySize hm = ks" "0 < ks" "unat ks + 26 < 2 ^ 64"
    and vs: "ValueSize hm = vs" "0 < vs" "unat vs + 26 < 2 ^ 64"
    and pk: "ParamK hm = block ks k" "length k = unat ks"
    and pv: "ParamV hm = block vs v" "length v = unat vs"
    and h: "Hash hm k = Some h" "idx = unat (h mod SUTL_HASHMAP_BUCKET_COUNT)"
    and empty: "Keys hm ! idx = SUTL_InternalVectorNew 1" "Values hm ! idx = SUTL_InternalVectorNew 1"
  shows "SUTL_InternalHashmapInsert hm =
    Some (Some (idx, 0), hm\<lparr>Size := Size hm + 1, Keys := (Keys hm)[idx := block ks k],
      Values := (Values hm)[idx := block vs v]\<rparr>, [])"
proof -
  have nz: "ks \<noteq> 0" using ks(2) by auto
  have loop: "SUTL_InternalHashmapInsert_loop (hm\<lparr>Size := Size hm + 1\<rparr>) idx 0 None = Some None"
    using empty ks(1)
    by (simp add: SUTL_InternalHashmapInsert_loop.simps [of _ _ 0] SUTL_InternalVectorNew_def)
  have pushk: "SUTLVectorPushN (Keys hm ! idx) (Data (ParamK hm)) ks = Some (Some 0, block ks k, [])"
    using pushn_new [OF ks(2,3) pk(2), of "[None, None]"] empty(1) pk(1) by (simp add: block_def)
  have pushv: "SUTLVectorPushN (Values hm ! idx) (Data (ParamV hm)) vs = Some (Some 0, block vs v, [])"
    using pushn_new [OF vs(2,3) pv(2), of "[None, None]"] empty(2) pv(1) by (simp add: block_def)
  show ?thesis
    using ks(1) vs(1) nz pk h loop pushk pushv
    by (simp add: SUTL_InternalHashmapInsert_def load_block Let_def)
qed

lemma hashmap_insert_present_single:
  assumes ks: "KeySize hm = ks" "0 < ks"
    and pk: "ParamK hm = block ks k" "length k = unat ks"
    and h: "Hash hm k = Some h" "idx = unat (h mod SUTL_HASHMAP_BUCKET_COUNT)"
    and cmp: "KeyComp hm k k = Some c" "c \<noteq> 0"
    and one: "Keys hm ! idx = block ks k"
  shows "SUTL_InternalHashmapInsert hm = Some (Some (idx, 0), hm\<lparr>Size := Size hm + 1\<rparr>, [])"
proof -
  have nz: "ks \<noteq> 0" using ks(2) by auto
  have sz: "SUTLVectorSize (block ks k) div ks = 1"
    using ks(2) by (simp add: block_def size_t_div_self)
  have loop: "SUTL_InternalHashmapInsert_loop (hm\<lparr>Size := Size hm + 1\<rparr>) idx 0 None
    = Some (Some (idx, 0))"
    using one ks(1) pk cmp sz
    by (simp add: SUTL_InternalHashmapInsert_loop.simps [of _ _ 0]
        SUTL_InternalHashmapInsert_loop.simps [of _ _ 1] load_block)
  show ?thesis
    using ks(1) nz pk h loop
    by (simp add: SUTL_InternalHashmapInsert_def load_block Let_def)
qed

lemma hashmap_get_single:
  assumes ks: "KeySize hm = ks" "0 < ks"
    and pk: "ParamK hm = block ks k" "length k = unat ks"
    and h: "Hash hm k = Some h" "idx = unat (h mod SUTL_HASHMAP_BUCKET_COUNT)"
    and cmp: "KeyComp hm k k = Some c" "c \<noteq> 0"
    and one: "Keys hm ! idx = block ks k"
  shows "SUTL_InternalHashmapGet hm = Some (Some (idx, 0))"
proof -
  have nz: "ks \<noteq> 0" using ks(2) by auto
  have sz: "SUTLVectorSize (block ks k) div ks = 1"
    using ks(2) by (simp add: block_def size_t_div_self)
  have loop: "SUTL_InternalHashmapGet_loop hm idx 0 = Some (Some (idx, 0))"
    using one ks(1) pk cmp sz
    by (simp add: SUTL_InternalHashmapGet_loop.simps [of _ _ 0] load_block)
  show ?thesis
    using ks(1) nz pk h loop
    by (simp add: SUTL_InternalHashmapGet_def load_block Let_def)
qed

lemma hashmap_get_empty:
  assumes ks: "KeySize hm = ks" "0 < ks"
    and pk: "ParamK hm = block ks k" "length k = unat ks"
    and h: "Hash hm k = Some h" "idx = unat (h mod SUTL_HASHMAP_BUCKET_COUNT)"
    and empty: "SUTLVectorSize (Keys hm ! idx) = 0"
  shows "SUTL_InternalHashmapGet hm = Some None"
proof -
  have nz: "ks \<noteq> 0" using ks(2) by auto
  have loop: "SUTL_InternalHashmapGet_loop hm idx 0 = Some None"
    using empty ks(1) by (simp add: SUTL_InternalHashmapGet_loop.simps [of _ _ 0])
  show ?thesis
    using ks(1) nz pk h loop
    by (simp add: SUTL_InternalHashmapGet_def load_block Let_def)
qed

lemma hashmap_erase_single:
  assumes ks: "KeySize hm = ks" "0 < ks" and vs: "ValueSize hm = vs"
    and pk: "ParamK hm = block ks k" "length k = unat ks"
    and h: "Hash hm k = Some h" "idx = unat (h mod SUTL_HASHMAP_BUCKET_COUNT)"
    and cmp: "KeyComp hm k k = Some c" "c \<noteq> 0"
    and one: "Keys hm ! idx = block ks k" "Values hm ! idx = block vs v"
  shows "SUTL_InternalHashmapErase hm =
    Some (hm\<lparr>Keys := (Keys hm)[idx := (block ks k)\<lparr>SUTLVectorSize := 0\<rparr>],
      Values := (Values hm)[idx := (block vs v)\<lparr>SUTLVectorSize := 0\<rparr>],
      Size := Size hm - 1\<rparr>, [])"
proof -
  have sz: "0 < SUTLVectorSize (block ks k)"
    using ks(2) by (simp add: block_def)
  have loop: "SUTL_InternalHashmapErase_loop hm idx 0 =
    Some (hm\<lparr>Keys := (Keys hm)[idx := (block ks k)\<lparr>SUTLVectorSize := 0\<rparr>],
      Values := (Values hm)[idx := (block vs v)\<lparr>SUTLVectorSize := 0\<rparr>],
      Size := Size hm - 1\<rparr>, [])"
    using one ks(1) vs pk cmp sz erase_block [of ks k] erase_block [of vs v]
    by (simp add: SUTL_InternalHashmapErase_loop.simps [of _ _ 0] load_block)
  show ?thesis
    using ks(1) pk h loop
    by (simp add: SUTL_InternalHashmapErase_def load_block Let_def)
qed

lemma hashmap_erase_empty:
  assumes ks: "KeySize hm = ks"
    and pk: "ParamK hm = block ks k" "length k = unat ks"
    and h: "Hash hm k = Some h" "idx = unat (h mod SUTL_HASHMAP_BUCKET_COUNT)"
    and empty: "SUTLVectorSize (Keys hm ! idx) = 0"
  shows "SUTL_InternalHashmapErase hm = Some (hm, [])"
proof -
  have loop: "SUTL_InternalHashmapErase_loop hm idx 0 = Some (hm, [])"
    using empty by (simp add: SUTL_InternalHashmapErase_loop.simps [of _ _ 0])
  show ?thesis
    using ks pk h loop
    by (simp add: SUTL_InternalHashmapErase_def load_block Let_def)
qed


text \<open>
  Claim C2.  For a new map, a key \<open>k\<close> and a value \<open>v\<close> (object representations of the
  map's key and value types, whose sizes are at least 1 and small enough for the scratch
  and bucket blocks to be representable), a hash function defined on \<open>k\<close> and a compare
  function that accepts \<open>k\<close> as equal to itself: after the insert the size is 1 and the
  pointer returned by \<open>Get\<close> reads \<open>v\<close>; after the erase the size is 0 and \<open>Get\<close> returns
  \<open>NULL\<close>; the second erase leaves the size at 0; no call reports an error.
\<close>

theorem hashmap_round_trip_outcome:
  assumes ks: "0 < ks" "unat ks + 26 < 2 ^ 64"
    and vs: "0 < vs" "unat vs + 26 < 2 ^ 64"
    and k: "length k = unat ks" and v: "length v = unat vs"
    and h: "hash k = Some h"
    and cmp: "keycomp k k = Some c" "c \<noteq> 0"
  shows "hashmap_round_trip ks vs hash keycomp k v = Some (1, Some v, 0, None, 0, [])"
proof -
  define idx where "idx = unat (h mod SUTL_HASHMAP_BUCKET_COUNT)"
  define B where "B = replicate (unat SUTL_HASHMAP_BUCKET_COUNT) (SUTL_InternalVectorNew 1)"
  define hm0 where "hm0 = \<lparr>Size = 0, KeySize = ks, ValueSize = vs,
       ParamK = block ks (replicate (unat ks) None), ParamV = block vs (replicate (unat vs) None),
       Keys = B, Values = B, Hash = hash, KeyComp = keycomp\<rparr>"
  define hm1 where "hm1 = \<lparr>Size = 1, KeySize = ks, ValueSize = vs,
       ParamK = block ks k, ParamV = block vs v,
       Keys = B[idx := block ks k], Values = B[idx := block vs v],
       Hash = hash, KeyComp = keycomp\<rparr>"
  define hm2 where "hm2 = \<lparr>Size = 0, KeySize = ks, ValueSize = vs,
       ParamK = block ks k, ParamV = block vs v,
       Keys = B[idx := (block ks k)\<lparr>SUTLVectorSize := 0\<rparr>],
       Values = B[idx := (block vs v)\<lparr>SUTLVectorSize := 0\<rparr>],
       Hash = hash, KeyComp = keycomp\<rparr>"
  have idx: "idx < length B"
    using bucket_index_in_range [of h] by (simp add: idx_def B_def)
  have Bi: "B ! idx = SUTL_InternalVectorNew 1"
    using idx by (simp add: B_def)
  have new: "SUTL_InternalHashmapNew ks vs hash keycomp = Some (hm0, [])"
    using hashmap_new [OF ks vs] by (simp add: hm0_def B_def)
  have ins: "SUTLHashmapInsert hm0 k v = Some (Some (idx, 0), hm1, [])"
  proof -
    let ?hm = "hm0\<lparr>ParamK := block ks k, ParamV := block vs v\<rparr>"
    have "SUTL_InternalHashmapInsert ?hm = Some (Some (idx, 0),
      ?hm\<lparr>Size := Size ?hm + 1, Keys := (Keys ?hm)[idx := block ks k],
        Values := (Values ?hm)[idx := block vs v]\<rparr>, [])"
      by (rule hashmap_insert_empty_bucket [where ks = ks and vs = vs and k = k and v = v and h = h])
        (use ks vs k v h Bi in \<open>simp_all add: hm0_def idx_def\<close>)
    then show ?thesis
      using k v by (simp add: SUTLHashmapInsert_def hm0_def hm1_def store_block)
  qed
  have get1: "SUTLHashmapGet hm1 k = Some (Some (idx, 0), hm1)"
  proof -
    have "SUTL_InternalHashmapGet hm1 = Some (Some (idx, 0))"
      by (rule hashmap_get_single [where ks = ks and k = k and h = h and c = c])
        (use ks k h cmp idx in \<open>simp_all add: hm1_def idx_def\<close>)
    then show ?thesis
      using k by (simp add: SUTLHashmapGet_def hm1_def store_block)
  qed
  have deref: "deref_value hm1 (idx, 0) = Some v"
    using idx v by (simp add: deref_value_def hm1_def load_block)
  have er1: "SUTLHashmapErase hm1 k = Some (hm2, [])"
  proof -
    have "SUTL_InternalHashmapErase hm1 =
      Some (hm1\<lparr>Keys := (Keys hm1)[idx := (block ks k)\<lparr>SUTLVectorSize := 0\<rparr>],
        Values := (Values hm1)[idx := (block vs v)\<lparr>SUTLVectorSize := 0\<rparr>],
        Size := Size hm1 - 1\<rparr>, [])"
      by (rule hashmap_erase_single [where ks = ks and vs = vs and k = k and h = h and c = c])
        (use ks k h cmp idx in \<open>simp_all add: hm1_def idx_def\<close>)
    then show ?thesis
      using k by (simp add: SUTLHashmapErase_def hm1_def hm2_def store_block)
  qed
  have K2: "SUTLVectorSize (Keys hm2 ! idx) = 0"
    using idx by (simp add: hm2_def)
  have f2: "KeySize hm2 = ks" "ParamK hm2 = block ks k" "Hash hm2 k = Some h"
    using h by (simp_all add: hm2_def)
  have get2: "SUTLHashmapGet hm2 k = Some (None, hm2)"
  proof -
    have "SUTL_InternalHashmapGet hm2 = Some None"
      by (rule hashmap_get_empty [OF f2(1) ks(1) f2(2) k f2(3) idx_def K2])
    then show ?thesis
      using k by (simp add: SUTLHashmapGet_def hm2_def store_block)
  qed
  have er2: "SUTLHashmapErase hm2 k = Some (hm2, [])"
  proof -
    have "SUTL_InternalHashmapErase hm2 = Some (hm2, [])"
      by (rule hashmap_erase_empty [OF f2(1) f2(2) k f2(3) idx_def K2])
    then show ?thesis
      using k by (simp add: SUTLHashmapErase_def hm2_def store_block)
  qed
  have sizes: "Size hm1 = 1" "Size hm2 = 0"
    by (simp_all add: hm1_def hm2_def)
  show ?thesis
    unfolding hashmap_round_trip_def
    by (simp add: new ins get1 deref er1 get2 er2 sizes)
qed

theorem hashmap_round_trip_outcome_witness:
  "0 < (4 :: size_t) \<and> unat (4 :: size_t) + 26 < 2 ^ 64
   \<and> length (int_object 25) = unat (4 :: size_t) \<and> length (int_object 625) = unat (4 :: size_t)
   \<and> SUTLHash_int (int_object 25) = Some 25
   \<and> SUTLCmp_int (int_object 25) (int_object 25) = Some 1 \<and> (1 :: int) \<noteq> 0
   \<and> hashmap_round_trip 4 4 SUTLHash_int SUTLCmp_int (int_object 25) (int_object 625)
       = Some (1, Some (int_object 625), 0, None, 0, [])"
proof -
  have s: "0 < (4 :: size_t)" "unat (4 :: size_t) + 26 < 2 ^ 64"
    by simp_all
  have l: "length (int_object 25) = unat (4 :: size_t)" "length (int_object 625) = unat (4 :: size_t)"
    by (simp_all add: int_object_def)
  have h: "SUTLHash_int (int_object 25) = Some 25"
    by code_simp
  have c: "SUTLCmp_int (int_object 25) (int_object 25) = Some 1" "(1 :: int) \<noteq> 0"
    by (code_simp, simp)
  from s l h c
    hashmap_round_trip_outcome [where hash = SUTLHash_int and keycomp = SUTLCmp_int, OF s s l h c]
  show ?thesis
    by blast
qed

subsection \<open>Insert increments the size\<close>

lemma hashmap_insert_size:
  assumes "SUTL_InternalHashmapInsert hm = Some (p, hm', e)"
  shows "Size hm' = Size hm + 1"
  using assms
  by (auto simp: SUTL_InternalHashmapInsert_def Let_def
      split: Option.bind_splits option.splits if_splits)

lemma hashset_insert_size:
  assumes "SUTL_InternalHashsetInsert hs = Some (p, hs', e)"
  shows "Size_s hs' = Size_s hs + 1"
  using assms
  by (auto simp: SUTL_InternalHashsetInsert_def Let_def
      split: Option.bind_splits option.splits if_splits)

lemma entries_one_bucket:
  fixes f :: "'a \<Rightarrow> nat"
  assumes "i < n" and "f x = 0"
  shows "sum_list (map f ((replicate n x)[i := y])) = f y"
  using assms by (simp add: map_update sum_list_update sum_list_replicate)

lemma set_bucket_index_in_range:
  "unat (h mod SUTL_HASHSET_BUCKET_COUNT) < unat SUTL_HASHSET_BUCKET_COUNT"
  using bucket_index_less [of h]
  by (simp add: SUTL_HASHSET_BUCKET_COUNT_def SUTL_HASHMAP_BUCKET_COUNT_def)

lemma hashset_new:
  assumes "0 < ks" "unat ks + 26 < 2 ^ 64"
  shows "SUTL_InternalHashsetNew ks hash keycomp =
    Some (\<lparr>Size_s = 0, KeySize_s = ks, ParamK_s = block ks (replicate (unat ks) None),
       Keys_s = replicate (unat SUTL_HASHSET_BUCKET_COUNT) (SUTL_InternalVectorNew 1),
       Hash_s = hash, KeyComp_s = keycomp\<rparr>, [])"
  using assms by (simp add: SUTL_InternalHashsetNew_def resize_new)

lemma hashset_insert_empty_bucket:
  assumes ks: "KeySize_s hs = ks" "0 < ks" "unat ks + 26 < 2 ^ 64"
    and pk: "ParamK_s hs = block ks k" "length k = unat ks"
    and h: "Hash_s hs k = Some h" "idx = unat (h mod SUTL_HASHSET_BUCKET_COUNT)"
    and empty: "Keys_s hs ! idx = SUTL_InternalVectorNew 1"
  shows "SUTL_InternalHashsetInsert hs =
    Some (Some (idx, 0), hs\<lparr>Size_s := Size_s hs + 1, Keys_s := (Keys_s hs)[idx := block ks k]\<rparr>, [])"
proof -
  have nz: "ks \<noteq> 0" using ks(2) by auto
  have loop: "SUTL_InternalHashsetInsert_loop (hs\<lparr>Size_s := Size_s hs + 1\<rparr>) idx 0 None = Some None"
    using empty ks(1)
    by (simp add: SUTL_InternalHashsetInsert_loop.simps [of _ _ 0] SUTL_InternalVectorNew_def)
  have pushk: "SUTLVectorPushN (Keys_s hs ! idx) (Data (ParamK_s hs)) ks = Some (Some 0, block ks k, [])"
    using pushn_new [OF ks(2,3) pk(2), of "[None, None]"] empty(1) pk(1) by (simp add: block_def)
  show ?thesis
    using ks(1) nz pk h loop pushk
    by (simp add: SUTL_InternalHashsetInsert_def load_block Let_def)
qed

lemma hashset_insert_present_single:
  assumes ks: "KeySize_s hs = ks" "0 < ks"
    and pk: "ParamK_s hs = block ks k" "length k = unat ks"
    and h: "Hash_s hs k = Some h" "idx = unat (h mod SUTL_HASHSET_BUCKET_COUNT)"
    and cmp: "KeyComp_s hs k k = Some c" "c \<noteq> 0"
    and one: "Keys_s hs ! idx = block ks k"
  shows "SUTL_InternalHashsetInsert hs = Some (Some (idx, 0), hs\<lparr>Size_s := Size_s hs + 1\<rparr>, [])"
proof -
  have nz: "ks \<noteq> 0" using ks(2) by auto
  have sz: "SUTLVectorSize (block ks k) div ks = 1"
    using ks(2) by (simp add: block_def size_t_div_self)
  have loop: "SUTL_InternalHashsetInsert_loop (hs\<lparr>Size_s := Size_s hs + 1\<rparr>) idx 0 None
    = Some (Some (idx, 0))"
    using one ks(1) pk cmp sz
    by (simp add: SUTL_InternalHashsetInsert_loop.simps [of _ _ 0]
        SUTL_InternalHashsetInsert_loop.simps [of _ _ 1] load_block)
  show ?thesis
    using ks(1) nz pk h loop
    by (simp add: SUTL_InternalHashsetInsert_def load_block Let_def)
qed

lemma hashmap_insert_twice_outcome:
  assumes ks: "0 < ks" "unat ks + 26 < 2 ^ 64"
    and vs: "0 < vs" "unat vs + 26 < 2 ^ 64"
    and k: "length k = unat ks" and v: "length v = unat vs" "length v' = unat vs"
    and h: "hash k = Some h"
    and cmp: "keycomp k k = Some c" "c \<noteq> 0"
  shows "hashmap_insert_twice ks vs hash keycomp k v v' = Some (2, 1)"
proof -
  define idx where "idx = unat (h mod SUTL_HASHMAP_BUCKET_COUNT)"
  define B where "B = replicate (unat SUTL_HASHMAP_BUCKET_COUNT) (SUTL_InternalVectorNew 1)"
  define hm0 where "hm0 = \<lparr>Size = 0, KeySize = ks, ValueSize = vs,
       ParamK = block ks (replicate (unat ks) None), ParamV = block vs (replicate (unat vs) None),
       Keys = B, Values = B, Hash = hash, KeyComp = keycomp\<rparr>"
  define hm1 where "hm1 = \<lparr>Size = 1, KeySize = ks, ValueSize = vs,
       ParamK = block ks k, ParamV = block vs v,
       Keys = B[idx := block ks k], Values = B[idx := block vs v],
       Hash = hash, KeyComp = keycomp\<rparr>"
  define hm2 where "hm2 = \<lparr>Size = 2, KeySize = ks, ValueSize = vs,
       ParamK = block ks k, ParamV = block vs v',
       Keys = B[idx := block ks k], Values = B[idx := block vs v],
       Hash = hash, KeyComp = keycomp\<rparr>"
  have idx: "idx < length B" "idx < unat SUTL_HASHMAP_BUCKET_COUNT"
    using bucket_index_in_range [of h] by (simp_all add: idx_def B_def)
  have Bi: "B ! idx = SUTL_InternalVectorNew 1"
    using idx by (simp add: B_def)
  have new: "SUTL_InternalHashmapNew ks vs hash keycomp = Some (hm0, [])"
    using hashmap_new [OF ks vs] by (simp add: hm0_def B_def)
  have ins1: "SUTLHashmapInsert hm0 k v = Some (Some (idx, 0), hm1, [])"
  proof -
    let ?hm = "hm0\<lparr>ParamK := block ks k, ParamV := block vs v\<rparr>"
    have "SUTL_InternalHashmapInsert ?hm = Some (Some (idx, 0),
      ?hm\<lparr>Size := Size ?hm + 1, Keys := (Keys ?hm)[idx := block ks k],
        Values := (Values ?hm)[idx := block vs v]\<rparr>, [])"
      by (rule hashmap_insert_empty_bucket [where ks = ks and vs = vs and k = k and v = v and h = h])
        (use ks vs k v h Bi in \<open>simp_all add: hm0_def idx_def\<close>)
    then show ?thesis
      using k v by (simp add: SUTLHashmapInsert_def hm0_def hm1_def store_block)
  qed
  have ins2: "SUTLHashmapInsert hm1 k v' = Some (Some (idx, 0), hm2, [])"
  proof -
    let ?hm = "hm1\<lparr>ParamK := block ks k, ParamV := block vs v'\<rparr>"
    have f: "KeySize ?hm = ks" "ParamK ?hm = block ks k" "Hash ?hm k = Some h"
      "KeyComp ?hm k k = Some c" "Keys ?hm ! idx = block ks k"
      using h cmp idx by (simp_all add: hm1_def)
    have "SUTL_InternalHashmapInsert ?hm = Some (Some (idx, 0), ?hm\<lparr>Size := Size ?hm + 1\<rparr>, [])"
      by (rule hashmap_insert_present_single [OF f(1) ks(1) f(2) k f(3) idx_def f(4) cmp(2) f(5)])
    then show ?thesis
      using k v by (simp add: SUTLHashmapInsert_def hm1_def hm2_def store_block)
  qed
  have "sum_list (map (\<lambda>b. unat (SUTLVectorSize b div ks)) (B[idx := block ks k]))
    = unat (SUTLVectorSize (block ks k) div ks)"
    unfolding B_def
    by (rule entries_one_bucket [OF idx(2)]) (simp add: SUTL_InternalVectorNew_def)
  then have entries: "SUTLHashmapEntries hm2 = 1"
    using ks(1) by (simp add: SUTLHashmapEntries_def hm2_def block_def size_t_div_self)
  have "Size hm2 = 2" by (simp add: hm2_def)
  then show ?thesis
    unfolding hashmap_insert_twice_def by (simp add: new ins1 ins2 entries)
qed

lemma hashset_insert_twice_outcome:
  assumes ks: "0 < ks" "unat ks + 26 < 2 ^ 64"
    and k: "length k = unat ks"
    and h: "hash k = Some h"
    and cmp: "keycomp k k = Some c" "c \<noteq> 0"
  shows "hashset_insert_twice ks hash keycomp k = Some (2, 1)"
proof -
  define idx where "idx = unat (h mod SUTL_HASHSET_BUCKET_COUNT)"
  define B where "B = replicate (unat SUTL_HASHSET_BUCKET_COUNT) (SUTL_InternalVectorNew 1)"
  define hs0 where "hs0 = \<lparr>Size_s = 0, KeySize_s = ks,
       ParamK_s = block ks (replicate (unat ks) None),
       Keys_s = B, Hash_s = hash, KeyComp_s = keycomp\<rparr>"
  define hs1 where "hs1 = \<lparr>Size_s = 1, KeySize_s = ks, ParamK_s = block ks k,
       Keys_s = B[idx := block ks k], Hash_s = hash, KeyComp_s = keycomp\<rparr>"
  define hs2 where "hs2 = \<lparr>Size_s = 2, KeySize_s = ks, ParamK_s = block ks k,
       Keys_s = B[idx := block ks k], Hash_s = hash, KeyComp_s = keycomp\<rparr>"
  have idx: "idx < length B" "idx < unat SUTL_HASHSET_BUCKET_COUNT"
    using set_bucket_index_in_range [of h] by (simp_all add: idx_def B_def)
  have Bi: "B ! idx = SUTL_InternalVectorNew 1"
    using idx by (simp add: B_def)
  have new: "SUTL_InternalHashsetNew ks hash keycomp = Some (hs0, [])"
    using hashset_new [OF ks] by (simp add: hs0_def B_def)
  have ins1: "SUTLHashsetInsert hs0 k = Some (Some (idx, 0), hs1, [])"
  proof -
    let ?hs = "hs0\<lparr>ParamK_s := block ks k\<rparr>"
    have f: "KeySize_s ?hs = ks" "ParamK_s ?hs = block ks k" "Hash_s ?hs k = Some h"
      "Keys_s ?hs ! idx = SUTL_InternalVectorNew 1"
      using h Bi by (simp_all add: hs0_def)
    have "SUTL_InternalHashsetInsert ?hs = Some (Some (idx, 0),
      ?hs\<lparr>Size_s := Size_s ?hs + 1, Keys_s := (Keys_s ?hs)[idx := block ks k]\<rparr>, [])"
      by (rule hashset_insert_empty_bucket [OF f(1) ks f(2) k f(3) idx_def f(4)])
    then show ?thesis
      using k by (simp add: SUTLHashsetInsert_def hs0_def hs1_def store_block)
  qed
  have ins2: "SUTLHashsetInsert hs1 k = Some (Some (idx, 0), hs2, [])"
  proof -
    have f: "KeySize_s hs1 = ks" "ParamK_s hs1 = block ks k" "Hash_s hs1 k = Some h"
      "KeyComp_s hs1 k k = Some c" "Keys_s hs1 ! idx = block ks k"
      using h cmp idx by (simp_all add: hs1_def)
    have "SUTL_InternalHashsetInsert hs1 = Some (Some (idx, 0), hs1\<lparr>Size_s := Size_s hs1 + 1\<rparr>, [])"
      by (rule hashset_insert_present_single [OF f(1) ks(1) f(2) k f(3) idx_def f(4) cmp(2) f(5)])
    then show ?thesis
      using k by (simp add: SUTLHashsetInsert_def hs1_def hs2_def store_block)
  qed
  have "sum_list (map (\<lambda>b. unat (SUTLVectorSize b div ks)) (B[idx := block ks k]))
    = unat (SUTLVectorSize (block ks k) div ks)"
    unfolding B_def
    by (rule entries_one_bucket [OF idx(2)]) (simp add: SUTL_InternalVectorNew_def)
  then have entries: "SUTLHashsetEntries hs2 = 1"
    using ks(1) by (simp add: SUTLHashsetEntries_def hs2_def block_def size_t_div_self)
  have "Size_s hs2 = 2" by (simp add: hs2_def)
  then show ?thesis
    unfolding hashset_insert_twice_def by (simp add: new ins1 ins2 entries)
qed

text \<open>
  Claim C4.  Every call of the insert function of a map or of a set that returns has
  incremented \<open>Size\<close> by 1 (in \<open>size_t\<close>), whether or not the key was present.  Inserting
  the same key twice into a new map or set (key and value sizes at least 1 and
  representable blocks, a hash defined on the key, a compare function that accepts the
  key as equal to itself) leaves a reported size of 2 and one stored entry.
\<close>

theorem insert_increments_size_always:
  "(SUTL_InternalHashmapInsert hm = Some (p, hm', e) \<longrightarrow> Size hm' = Size hm + 1)
   \<and> (SUTL_InternalHashsetInsert hs = Some (q, hs', e') \<longrightarrow> Size_s hs' = Size_s hs + 1)
   \<and> (0 < ks \<and> unat ks + 26 < 2 ^ 64 \<and> 0 < vs \<and> unat vs + 26 < 2 ^ 64
        \<and> length k = unat ks \<and> length v = unat vs \<and> length v' = unat vs
        \<and> hash k = Some h \<and> keycomp k k = Some c \<and> c \<noteq> 0 \<longrightarrow>
      hashmap_insert_twice ks vs hash keycomp k v v' = Some (2, 1)
      \<and> hashset_insert_twice ks hash keycomp k = Some (2, 1))"
  using hashmap_insert_size [of hm p hm' e] hashset_insert_size [of hs q hs' e']
    hashmap_insert_twice_outcome [of ks vs k v v' hash h keycomp c]
    hashset_insert_twice_outcome [of ks k hash h keycomp c]
  by blast

theorem insert_increments_size_always_witness:
  "(\<exists>p hm' e. SUTL_InternalHashmapInsert int_map_staged = Some (p, hm', e)
      \<and> Size hm' = Size int_map_staged + 1)
   \<and> (\<exists>q hs' e. SUTL_InternalHashsetInsert int_set_staged = Some (q, hs', e)
      \<and> Size_s hs' = Size_s int_set_staged + 1)
   \<and> 0 < (4 :: size_t) \<and> unat (4 :: size_t) + 26 < 2 ^ 64
   \<and> length (int_object 25) = unat (4 :: size_t) \<and> length (int_object 625) = unat (4 :: size_t)
   \<and> length (int_object 626) = unat (4 :: size_t)
   \<and> SUTLHash_int (int_object 25) = Some 25
   \<and> SUTLCmp_int (int_object 25) (int_object 25) = Some 1 \<and> (1 :: int) \<noteq> 0
   \<and> hashmap_insert_twice 4 4 SUTLHash_int SUTLCmp_int (int_object 25) (int_object 625)
         (int_object 626) = Some (2, 1)
   \<and> hashset_insert_twice 4 SUTLHash_int SUTLCmp_int (int_object 25) = Some (2, 1)"
proof -
  have "SUTL_InternalHashmapInsert int_map_staged \<noteq> None"
    by code_simp
  then obtain p hm' e where m: "SUTL_InternalHashmapInsert int_map_staged = Some (p, hm', e)"
    by (cases "SUTL_InternalHashmapInsert int_map_staged") auto
  have "SUTL_InternalHashsetInsert int_set_staged \<noteq> None"
    by code_simp
  then obtain q hs' e' where t: "SUTL_InternalHashsetInsert int_set_staged = Some (q, hs', e')"
    by (cases "SUTL_InternalHashsetInsert int_set_staged") auto
  have s: "0 < (4 :: size_t)" "unat (4 :: size_t) + 26 < 2 ^ 64"
    by simp_all
  have l: "length (int_object 25) = unat (4 :: size_t)" "length (int_object 625) = unat (4 :: size_t)"
    "length (int_object 626) = unat (4 :: size_t)"
    by (simp_all add: int_object_def)
  have h: "SUTLHash_int (int_object 25) = Some 25"
    by code_simp
  have c: "SUTLCmp_int (int_object 25) (int_object 25) = Some 1" "(1 :: int) \<noteq> 0"
    by (code_simp, simp)
  note main = insert_increments_size_always [where hm = int_map_staged and p = p and hm' = hm'
      and e = e and hs = int_set_staged and q = q and hs' = hs' and e' = e'
      and ks = 4 and vs = 4 and k = "int_object 25" and v = "int_object 625"
      and v' = "int_object 626" and hash = SUTLHash_int and h = 25 and keycomp = SUTLCmp_int
      and c = 1]
  from m t s l h c main show ?thesis
    by blast
qed

subsection \<open>Bucket vectors under push and erase\<close>

lemma unat_add_cases:
  "unat (a + b :: size_t) = unat a + unat b
   \<or> (2 ^ 64 \<le> unat a + unat b \<and> unat (a + b) + 2 ^ 64 = unat a + unat b)"
  using unat_plus_if' [of a b] unat_size_t_bound [of a] unat_size_t_bound [of b]
  by (auto split: if_splits)

lemma resize_cases:
  assumes "SUTL_InternalVectorResize v sz = Some (v1, e)"
  shows "SUTLVectorElemsize v1 = SUTLVectorElemsize v \<and> SUTLVectorSize v1 = sz \<and>
    ((Data v1 = Data v \<and> SUTLVectorCapacity v1 = SUTLVectorCapacity v) \<or>
     (SUTLVectorCapacity v < sz
      \<and> 24 \<le> unat (24 + (sz + 2) * SUTLVectorElemsize v)
      \<and> Data v1 = SHRN_REALLOC (Data v) (unat (24 + (sz + 2) * SUTLVectorElemsize v) - 24)
      \<and> SUTLVectorCapacity v1 = sz + 2))"
  using assms
  by (auto simp: SUTL_InternalVectorResize_def SUTL_InternalVectorReserve_def Let_def
      split: if_splits Option.bind_splits)

lemma realloc_length: "length (SHRN_REALLOC m n) = n"
  by (simp add: SHRN_REALLOC_def)

lemma pushn_bucket:
  assumes bv: "bucket_vec v"
    and push: "SUTLVectorPushN v ptr c = Some (p, v', e)"
  shows "bucket_vec v' \<and> unat (SUTLVectorSize v') = unat (SUTLVectorSize v) + unat c
    \<and> unat (SUTLVectorSize v') \<le> length (Data v')
    \<and> (length (Data v') = length (Data v)
        \<or> (length (Data v) < unat (SUTLVectorSize v) + unat c
            \<and> length (Data v') = unat (SUTLVectorSize v) + unat c + 2))"
proof -
  let ?S = "unat (SUTLVectorSize v)" and ?c = "unat c" and ?L = "length (Data v)"
  have es: "SUTLVectorElemsize v = 1" and L: "?L = unat (SUTLVectorCapacity v)"
    and Lb: "?L + 24 < 2 ^ 64"
    using bv by (simp_all add: bucket_vec_def)
  obtain v1 d2 where rs: "SUTL_InternalVectorResize v (SUTLVectorSize v + c) = Some (v1, e)"
    and cp: "SHRN_MEMCPY (Data v1) (unat (SUTLVectorElemsize v1 * SUTLVectorSize v)) ptr
      (unat (SUTLVectorElemsize v1 * c)) = Some d2"
    and v': "v' = v1\<lparr>Data := d2\<rparr>"
    using push
    by (auto simp: SUTLVectorPushN_def SUTL_InternalVectorInsertN_def SUTLVectorOffset_def Let_def
        split: if_splits Option.bind_splits)
  note rc = resize_cases [OF rs, unfolded es]
  have es1: "SUTLVectorElemsize v1 = 1" and sz1: "SUTLVectorSize v1 = SUTLVectorSize v + c"
    using rc by simp_all
  have fit: "?S + ?c \<le> length (Data v1)" and d2: "length d2 = length (Data v1)"
    using cp es1 by (auto simp: SHRN_MEMCPY_def split: if_splits)
  from rc have "(Data v1 = Data v \<and> SUTLVectorCapacity v1 = SUTLVectorCapacity v) \<or>
     (SUTLVectorCapacity v < SUTLVectorSize v + c
      \<and> 24 \<le> unat (24 + (SUTLVectorSize v + c + 2))
      \<and> Data v1 = SHRN_REALLOC (Data v) (unat (24 + (SUTLVectorSize v + c + 2)) - 24)
      \<and> SUTLVectorCapacity v1 = SUTLVectorSize v + c + 2)"
    by simp
  then show ?thesis
  proof (elim disjE conjE)
    assume same: "Data v1 = Data v" "SUTLVectorCapacity v1 = SUTLVectorCapacity v"
    have "unat (SUTLVectorSize v + c) = ?S + ?c"
      using fit same Lb by (simp add: unat_add_nowrap)
    then show ?thesis
      using same fit d2 bv es1 sz1 v' by (simp add: bucket_vec_def)
  next
    let ?r = "unat (24 + (SUTLVectorSize v + c + 2))"
    assume grow: "SUTLVectorCapacity v < SUTLVectorSize v + c" "24 \<le> ?r"
      "Data v1 = SHRN_REALLOC (Data v) (?r - 24)"
      "SUTLVectorCapacity v1 = SUTLVectorSize v + c + 2"
    have len1: "length (Data v1) = ?r - 24"
      using grow(3) by (simp add: realloc_length)
    have rb: "?r < 2 ^ 64" by (rule unat_size_t_bound)
    have small: "?S + ?c + 24 < 2 ^ 64"
      using fit len1 grow(2) rb by linarith
    have s: "unat (SUTLVectorSize v + c) = ?S + ?c"
      using small by (simp add: unat_add_nowrap)
    have s2: "unat (SUTLVectorSize v + c + 2) = ?S + ?c + 2"
      using small s by (simp add: unat_add_nowrap)
    have r: "?r = ?S + ?c + 26"
      using unat_add_cases [of 24 "SUTLVectorSize v + c + 2"] s2 grow(2) small by auto
    have "?L < ?S + ?c"
      using grow(1) s L by (simp add: word_less_nat_alt)
    then show ?thesis
      using r rb len1 d2 es1 sz1 v' s s2 grow(4) by (simp add: bucket_vec_def)
  qed
qed

lemma erasen_entry:
  assumes bv: "bucket_vec v"
    and le: "unat at + unat c \<le> unat (SUTLVectorSize v)"
    and er: "SUTL_InternalVectorEraseN v at c = Some (v', e)"
  shows "bucket_vec v' \<and> unat (SUTLVectorSize v') = unat (SUTLVectorSize v) - unat c
    \<and> length (Data v') = length (Data v)"
proof -
  have sum: "unat (at + c) = unat at + unat c"
    using le unat_size_t_bound [of "SUTLVectorSize v"] by (simp add: unat_add_nowrap)
  have ngt: "\<not> at + c > SUTLVectorSize v"
    using sum le by (simp add: word_less_nat_alt)
  have "c \<le> SUTLVectorSize v"
    using le by (simp add: word_le_nat_alt)
  then have sub: "unat (SUTLVectorSize v - c) = unat (SUTLVectorSize v) - unat c"
    by (rule unat_sub)
  show ?thesis
    using er ngt bv sub
    by (auto simp: SUTL_InternalVectorEraseN_def Let_def SHRN_MEMMOVE_def bucket_vec_def
        split: if_splits Option.bind_splits)
qed

lemma erasen_stale:
  assumes bv: "bucket_vec v"
    and ge: "SUTLVectorSize v \<le> at"
    and atL: "unat at \<le> length (Data v)"
    and cS: "c \<le> SUTLVectorSize v"
    and er: "SUTL_InternalVectorEraseN v at c = Some (v', e)"
  shows "v' = v"
proof (cases "at + c > SUTLVectorSize v")
  case True
  then show ?thesis
    using er ge
    by (auto simp: SUTL_InternalVectorEraseN_def Let_def split: if_splits)
next
  case False
  let ?S = "unat (SUTLVectorSize v)" and ?a = "unat at" and ?c = "unat c"
  let ?L = "length (Data v)"
  have es: "SUTLVectorElemsize v = 1" and Lb: "?L + 24 < 2 ^ 64"
    using bv by (simp_all add: bucket_vec_def)
  have wS: "unat (at + c) \<le> ?S"
    using False by (simp add: word_less_nat_alt)
  have Sa: "?S \<le> ?a" and cS': "?c \<le> ?S"
    using ge cS by (simp_all add: word_le_nat_alt)
  show ?thesis
  proof (cases "c = 0")
    case True
    then have "at = SUTLVectorSize v"
      using False ge by simp
    then show ?thesis
      using er True by (simp add: SUTL_InternalVectorEraseN_def)
  next
    case c0: False
    then have "0 < ?c" by (simp add: unat_gt_0)
    then have wrap: "unat (at + c) + 2 ^ 64 = ?a + ?c"
      using unat_add_cases [of at c] wS Sa by auto
    have "at + c \<le> SUTLVectorSize v" using False by simp
    then have sub: "unat (SUTLVectorSize v - (at + c)) = ?S - unat (at + c)"
      by (rule unat_sub)
    have eq: "SUTLVectorSize v - c - at = SUTLVectorSize v - (at + c)"
      by simp
    show ?thesis
    proof (cases "at + c = SUTLVectorSize v")
      case True
      then have "?a + ?c = ?S + 2 ^ 64" using wrap by simp
      then show ?thesis using atL cS' Lb by simp
    next
      case ne: False
      then obtain d where
        "SHRN_MEMMOVE (Data v) ?a (unat (at + c)) (unat (SUTLVectorSize v - (at + c))) = Some d"
        using er False es eq
        by (auto simp: SUTL_InternalVectorEraseN_def Let_def SUTLVectorOffset_def
            split: if_splits Option.bind_splits)
      then have "?a + (?S - unat (at + c)) \<le> ?L"
        using sub by (auto simp: SHRN_MEMMOVE_def split: if_splits)
      then show ?thesis using wrap wS cS' Lb by simp
    qed
  qed
qed

subsection \<open>The bucket invariant\<close>

lemma bucket_pair_push:
  assumes bp: "bucket_pair ks vs kv0 vv0"
    and k: "bucket_vec kv" "unat (SUTLVectorSize kv) = unat (SUTLVectorSize kv0) + ks"
      "unat (SUTLVectorSize kv) \<le> length (Data kv)"
      "length (Data kv) = length (Data kv0)
        \<or> (length (Data kv0) < unat (SUTLVectorSize kv0) + ks
            \<and> length (Data kv) = unat (SUTLVectorSize kv0) + ks + 2)"
    and v: "bucket_vec vv" "unat (SUTLVectorSize vv) = unat (SUTLVectorSize vv0) + vs"
      "unat (SUTLVectorSize vv) \<le> length (Data vv)"
      "length (Data vv) = length (Data vv0)
        \<or> (length (Data vv0) < unat (SUTLVectorSize vv0) + vs
            \<and> length (Data vv) = unat (SUTLVectorSize vv0) + vs + 2)"
  shows "bucket_pair ks vs kv vv"
proof -
  obtain n m where nm: "unat (SUTLVectorSize kv0) = n * ks" "unat (SUTLVectorSize vv0) = n * vs"
    "n \<le> m" "n * ks \<le> length (Data kv0)" "length (Data kv0) \<le> m * ks + 2"
    "m * vs \<le> length (Data vv0)"
    using bp unfolding bucket_pair_def by blast
  define m' where "m' = max m (Suc n)"
  have sk: "unat (SUTLVectorSize kv) = Suc n * ks" and sv: "unat (SUTLVectorSize vv) = Suc n * vs"
    using k(2) v(2) nm(1,2) by simp_all
  have m1: "m \<le> m'" "Suc n \<le> m'"
    unfolding m'_def by simp_all
  have mm: "m * ks \<le> m' * ks" "Suc n * ks \<le> m' * ks" "Suc n \<le> m'"
    using m1 by (simp_all only: mult_le_mono1)
  have suc: "Suc n * ks = n * ks + ks" "Suc n * vs = n * vs + vs"
    by simp_all
  have lk: "length (Data kv) \<le> m' * ks + 2"
  proof -
    from k(4) show ?thesis
    proof
      assume "length (Data kv) = length (Data kv0)"
      with nm(5) mm(1) show ?thesis by linarith
    next
      assume "length (Data kv0) < unat (SUTLVectorSize kv0) + ks
        \<and> length (Data kv) = unat (SUTLVectorSize kv0) + ks + 2"
      with nm(1) mm(2) suc(1) show ?thesis by linarith
    qed
  qed
  have lv: "m' * vs \<le> length (Data vv)"
  proof (cases "m' = m")
    case True
    from v(4) show ?thesis
    proof
      assume "length (Data vv) = length (Data vv0)"
      then show ?thesis using nm(6) True by simp
    next
      assume g: "length (Data vv0) < unat (SUTLVectorSize vv0) + vs
        \<and> length (Data vv) = unat (SUTLVectorSize vv0) + vs + 2"
      with nm(2,6) suc(2) have "m * vs < Suc n * vs" by linarith
      then have "m < Suc n" by (simp only: mult_less_cancel2)
      then show ?thesis using True m'_def by simp
    qed
  next
    case False
    then have "m' = Suc n" unfolding m'_def by (simp add: max_def split: if_splits)
    then show ?thesis using sv v(3) by simp
  qed
  have "Suc n * ks \<le> length (Data kv)"
    using sk k(3) by simp
  then show ?thesis
    unfolding bucket_pair_def
    using k(1) v(1) sk sv mm(3) lk lv by blast
qed

lemma hashmap_inv_update:
  assumes inv: "hashmap_inv hm"
    and idx: "idx < unat SUTL_HASHMAP_BUCKET_COUNT"
    and bp: "bucket_pair (unat (KeySize hm)) (unat (ValueSize hm)) kv vv"
    and f: "KeySize hm' = KeySize hm" "ValueSize hm' = ValueSize hm"
      "Keys hm' = (Keys hm)[idx := kv]" "Values hm' = (Values hm)[idx := vv]"
  shows "hashmap_inv hm'"
  using inv idx bp f
  by (auto simp: hashmap_inv_def nth_list_update)

lemma hashmap_inv_same_buckets:
  assumes inv: "hashmap_inv hm"
    and f: "KeySize hm' = KeySize hm" "ValueSize hm' = ValueSize hm"
      "Keys hm' = Keys hm" "Values hm' = Values hm"
  shows "hashmap_inv hm'"
  using inv f by (simp add: hashmap_inv_def)

lemma hashmap_insert_inv:
  assumes inv: "hashmap_inv hm"
    and ins: "SUTL_InternalHashmapInsert hm = Some (p, hm', e)"
  shows "hashmap_inv hm'"
proof -
  obtain k h where h: "load (Data (ParamK hm)) 0 (unat (KeySize hm)) = Some k" "Hash hm k = Some h"
    using ins by (auto simp: SUTL_InternalHashmapInsert_def split: Option.bind_splits)
  define idx where "idx = unat (h mod SUTL_HASHMAP_BUCKET_COUNT)"
  have idx: "idx < unat SUTL_HASHMAP_BUCKET_COUNT"
    unfolding idx_def by (rule bucket_index_in_range)
  have "(Keys hm' = Keys hm \<and> Values hm' = Values hm
          \<and> KeySize hm' = KeySize hm \<and> ValueSize hm' = ValueSize hm)
    \<or> (\<exists>pk kv e1 pv vv e2.
          SUTLVectorPushN (Keys hm ! idx) (Data (ParamK hm)) (KeySize hm) = Some (pk, kv, e1)
          \<and> SUTLVectorPushN (Values hm ! idx) (Data (ParamV hm)) (ValueSize hm) = Some (pv, vv, e2)
          \<and> Keys hm' = (Keys hm)[idx := kv] \<and> Values hm' = (Values hm)[idx := vv]
          \<and> KeySize hm' = KeySize hm \<and> ValueSize hm' = ValueSize hm)"
    using ins h idx
    by (auto simp: SUTL_InternalHashmapInsert_def Let_def idx_def hashmap_inv_def
        split: Option.bind_splits option.splits if_splits)
  then show ?thesis
  proof (elim disjE exE conjE)
    assume "Keys hm' = Keys hm" "Values hm' = Values hm"
      "KeySize hm' = KeySize hm" "ValueSize hm' = ValueSize hm"
    then show ?thesis using inv by (intro hashmap_inv_same_buckets [OF inv]) simp_all
  next
    fix pk kv e1 pv vv e2
    assume pk: "SUTLVectorPushN (Keys hm ! idx) (Data (ParamK hm)) (KeySize hm) = Some (pk, kv, e1)"
      and pv: "SUTLVectorPushN (Values hm ! idx) (Data (ParamV hm)) (ValueSize hm) = Some (pv, vv, e2)"
      and f: "Keys hm' = (Keys hm)[idx := kv]" "Values hm' = (Values hm)[idx := vv]"
        "KeySize hm' = KeySize hm" "ValueSize hm' = ValueSize hm"
    have bp: "bucket_pair (unat (KeySize hm)) (unat (ValueSize hm)) (Keys hm ! idx) (Values hm ! idx)"
      using inv idx by (simp add: hashmap_inv_def)
    then have bv: "bucket_vec (Keys hm ! idx)" "bucket_vec (Values hm ! idx)"
      by (simp_all add: bucket_pair_def)
    note a = pushn_bucket [OF bv(1) pk] and b = pushn_bucket [OF bv(2) pv]
    have "bucket_pair (unat (KeySize hm)) (unat (ValueSize hm)) kv vv"
      using a b by (intro bucket_pair_push [OF bp]) simp_all
    then show ?thesis
      by (rule hashmap_inv_update [OF inv idx _ f(3,4,1,2)])
  qed
qed

lemma bucket_pair_erase:
  assumes bp: "bucket_pair ks vs kv0 vv0"
    and k: "bucket_vec kv" "unat (SUTLVectorSize kv) = unat (SUTLVectorSize kv0) - ks"
      "length (Data kv) = length (Data kv0)"
    and v: "bucket_vec vv" "unat (SUTLVectorSize vv) = unat (SUTLVectorSize vv0) - vs"
      "length (Data vv) = length (Data vv0)"
    and pos: "0 < unat (SUTLVectorSize kv0)"
  shows "bucket_pair ks vs kv vv"
proof -
  obtain n m where nm: "unat (SUTLVectorSize kv0) = n * ks" "unat (SUTLVectorSize vv0) = n * vs"
    "n \<le> m" "n * ks \<le> length (Data kv0)" "length (Data kv0) \<le> m * ks + 2"
    "m * vs \<le> length (Data vv0)"
    using bp unfolding bucket_pair_def by blast
  have "0 < n" using pos nm(1) by (cases n) simp_all
  then obtain n' where n': "n = Suc n'" by (cases n) simp_all
  have "unat (SUTLVectorSize kv) = n' * ks" "unat (SUTLVectorSize vv) = n' * vs"
    "n' \<le> m" "n' * ks \<le> length (Data kv)"
    using k(2,3) v(2) nm(1,2,3,4) n' by simp_all
  then show ?thesis
    unfolding bucket_pair_def using k(1,3) v(1,3) nm(5,6) by auto
qed

lemma hashmap_erase_loop_inv:
  assumes "hashmap_inv hm" and "idx < unat SUTL_HASHMAP_BUCKET_COUNT"
    and "unat i * unat (KeySize hm) \<le> length (Data (Keys hm ! idx))"
    and "SUTL_InternalHashmapErase_loop hm idx i = Some (hm', e)"
  shows "hashmap_inv hm'"
  using assms
proof (induction hm idx i rule: SUTL_InternalHashmapErase_loop.induct)
  case (1 hm index i)
  let ?KV = "Keys hm ! index" and ?VV = "Values hm ! index"
  let ?ks = "unat (KeySize hm)" and ?vs = "unat (ValueSize hm)"
  note inv = \<open>hashmap_inv hm\<close> and idx = \<open>index < unat SUTL_HASHMAP_BUCKET_COUNT\<close>
  note pos = \<open>unat i * ?ks \<le> length (Data ?KV)\<close>
  note run = \<open>SUTL_InternalHashmapErase_loop hm index i = Some (hm', e)\<close>
  show ?case
  proof (cases "i < SUTLVectorSize ?KV")
    case False
    then have "hm' = hm"
      using run by (simp add: SUTL_InternalHashmapErase_loop.simps [of hm index i])
    then show ?thesis using inv by simp
  next
    case True
    have bp: "bucket_pair ?ks ?vs ?KV ?VV"
      using inv idx by (simp add: hashmap_inv_def)
    then have bv: "bucket_vec ?KV" "bucket_vec ?VV"
      by (simp_all add: bucket_pair_def)
    have ks0: "0 < ?ks" and vs0: "0 < ?vs"
      using inv by (simp_all add: hashmap_inv_def word_less_nat_alt)
    have Lk: "length (Data ?KV) + 24 < 2 ^ 64" and Lv: "length (Data ?VV) + 24 < 2 ^ 64"
      using bv by (simp_all add: bucket_vec_def)
    obtain k s c where ld: "load (Data (ParamK hm)) 0 ?ks = Some k"
      "load (Data ?KV) (unat (i * KeySize hm)) ?ks = Some s" "KeyComp hm k s = Some c"
      using run True
      by (auto simp: SUTL_InternalHashmapErase_loop.simps [of hm index i]
          split: Option.bind_splits)
    from pos Lk have "unat i * ?ks < 2 ^ 64" by linarith
    then have off: "unat (i * KeySize hm) = unat i * ?ks"
      by (rule unat_mult_nowrap)
    have next_pos: "unat i * ?ks + ?ks \<le> length (Data ?KV)"
      using ld(2) off by (auto simp: load_def split: if_splits)
    have i1: "unat (i + 1) = unat i + 1"
      using True unat_size_t_bound [of "SUTLVectorSize ?KV"]
      by (simp add: unat_add_nowrap word_less_nat_alt)
    show ?thesis
    proof (cases "c = 0")
      case True
      then have rec: "SUTL_InternalHashmapErase_loop hm index (i + 1) = Some (hm', e)"
        using run \<open>i < SUTLVectorSize ?KV\<close> ld
        by (simp add: SUTL_InternalHashmapErase_loop.simps [of hm index i])
      have "unat (i + 1) * ?ks \<le> length (Data ?KV)"
        using next_pos i1 by (simp add: algebra_simps)
      then show ?thesis
        using "1.IH" [OF \<open>i < SUTLVectorSize ?KV\<close> ld _ inv idx _ rec] True by simp
    next
      case False
      then obtain kv e1 vv e2 where
        ek: "SUTL_InternalVectorEraseN ?KV (i * KeySize hm) (KeySize hm) = Some (kv, e1)"
        and ev: "SUTL_InternalVectorEraseN ?VV (i * ValueSize hm) (ValueSize hm) = Some (vv, e2)"
        and hm': "hm' = hm\<lparr>Keys := (Keys hm)[index := kv], Values := (Values hm)[index := vv],
          Size := Size hm - 1\<rparr>"
        using run \<open>i < SUTLVectorSize ?KV\<close> ld
        by (auto simp: SUTL_InternalHashmapErase_loop.simps [of hm index i]
            split: Option.bind_splits)
      obtain n m where nm: "unat (SUTLVectorSize ?KV) = n * ?ks"
        "unat (SUTLVectorSize ?VV) = n * ?vs" "n \<le> m" "n * ?ks \<le> length (Data ?KV)"
        "length (Data ?KV) \<le> m * ?ks + 2" "m * ?vs \<le> length (Data ?VV)"
        using bp unfolding bucket_pair_def by blast
      have iS: "unat i < n * ?ks"
        using \<open>i < SUTLVectorSize ?KV\<close> nm(1) by (simp add: word_less_nat_alt)
      then have n0: "0 < n" by (cases n) simp_all
      have "bucket_pair ?ks ?vs kv vv"
      proof (cases "unat i < n")
        case True
        then have "Suc (unat i) \<le> n" by simp
        then have le: "Suc (unat i) * ?ks \<le> n * ?ks" "Suc (unat i) * ?vs \<le> n * ?vs"
          by (simp_all only: mult_le_mono1)
        have "unat i \<le> n" using True by simp
        then have "unat i * ?vs \<le> n * ?vs"
          by (simp only: mult_le_mono1)
        with nm(2) unat_size_t_bound [of "SUTLVectorSize ?VV"]
        have "unat i * ?vs < 2 ^ 64" by linarith
        then have offv: "unat (i * ValueSize hm) = unat i * ?vs"
          by (rule unat_mult_nowrap)
        have a: "unat (i * KeySize hm) + ?ks \<le> unat (SUTLVectorSize ?KV)"
          using le(1) off nm(1) by simp
        have b: "unat (i * ValueSize hm) + ?vs \<le> unat (SUTLVectorSize ?VV)"
          using le(2) offv nm(2) by simp
        have "0 < unat (SUTLVectorSize ?KV)"
          using \<open>i < SUTLVectorSize ?KV\<close> by (simp add: word_less_nat_alt)
        then show ?thesis
          using erasen_entry [OF bv(1) a ek] erasen_entry [OF bv(2) b ev]
          by (intro bucket_pair_erase [OF bp]) simp_all
      next
        case False
        then have ni: "n \<le> unat i" by simp
        then have ge: "n * ?ks \<le> unat i * ?ks" "n * ?vs \<le> unat i * ?vs"
          by (simp_all only: mult_le_mono1)
        have ck: "?ks \<le> n * ?ks" and cv: "?vs \<le> n * ?vs"
          using n0 by simp_all
        have "kv = ?KV"
        proof (rule erasen_stale [OF bv(1) _ _ _ ek])
          show "SUTLVectorSize ?KV \<le> i * KeySize hm"
            using ge(1) off nm(1) by (simp add: word_le_nat_alt)
          show "unat (i * KeySize hm) \<le> length (Data ?KV)"
            using off pos by simp
          show "KeySize hm \<le> SUTLVectorSize ?KV"
            using ck nm(1) by (simp add: word_le_nat_alt)
        qed
        have "1 < ?ks"
        proof (rule ccontr)
          assume "\<not> 1 < ?ks"
          with ks0 have "?ks = 1" by linarith
          with ni iS show False by simp
        qed
        then have "m * ?ks + 2 \<le> Suc m * ?ks" by simp
        moreover have "Suc (unat i) * ?ks = unat i * ?ks + ?ks" by simp
        ultimately have "Suc (unat i) * ?ks \<le> Suc m * ?ks"
          using next_pos nm(5) by linarith
        then have "Suc (unat i) \<le> Suc m"
          using ks0 by (simp only: mult_le_cancel2)
        then have "unat i \<le> m" by simp
        then have "unat i * ?vs \<le> m * ?vs"
          by (simp only: mult_le_mono1)
        with nm(6) have iv: "unat i * ?vs \<le> length (Data ?VV)"
          by linarith
        with Lv have "unat i * ?vs < 2 ^ 64" by linarith
        then have offv: "unat (i * ValueSize hm) = unat i * ?vs"
          by (rule unat_mult_nowrap)
        have "vv = ?VV"
        proof (rule erasen_stale [OF bv(2) _ _ _ ev])
          show "SUTLVectorSize ?VV \<le> i * ValueSize hm"
            using ge(2) offv nm(2) by (simp add: word_le_nat_alt)
          show "unat (i * ValueSize hm) \<le> length (Data ?VV)"
            using offv iv by simp
          show "ValueSize hm \<le> SUTLVectorSize ?VV"
            using cv nm(2) by (simp add: word_le_nat_alt)
        qed
        show ?thesis
          using bp \<open>kv = ?KV\<close> \<open>vv = ?VV\<close> by simp
      qed
      then show ?thesis
        by (rule hashmap_inv_update [OF inv idx]) (simp_all add: hm')
    qed
  qed
qed

lemma hashmap_erase_inv:
  assumes inv: "hashmap_inv hm"
    and er: "SUTL_InternalHashmapErase hm = Some (hm', e)"
  shows "hashmap_inv hm'"
proof -
  obtain k h where "load (Data (ParamK hm)) 0 (unat (KeySize hm)) = Some k" "Hash hm k = Some h"
    and loop: "SUTL_InternalHashmapErase_loop hm (unat (h mod SUTL_HASHMAP_BUCKET_COUNT)) 0
      = Some (hm', e)"
    using er by (auto simp: SUTL_InternalHashmapErase_def Let_def split: Option.bind_splits)
  show ?thesis
    by (rule hashmap_erase_loop_inv [OF inv bucket_index_in_range _ loop]) simp
qed

lemma bucket_vec_new: "bucket_vec (SUTL_InternalVectorNew 1)"
  by (simp add: bucket_vec_def SUTL_InternalVectorNew_def)

lemma bucket_pair_new: "bucket_pair ks vs (SUTL_InternalVectorNew 1) (SUTL_InternalVectorNew 1)"
proof -
  have "unat (SUTLVectorSize (SUTL_InternalVectorNew 1)) = 0 * ks"
    "unat (SUTLVectorSize (SUTL_InternalVectorNew 1)) = 0 * vs"
    "0 * ks \<le> length (Data (SUTL_InternalVectorNew 1))"
    "length (Data (SUTL_InternalVectorNew 1)) \<le> 0 * ks + 2"
    "0 * vs \<le> length (Data (SUTL_InternalVectorNew 1))"
    by (simp_all add: SUTL_InternalVectorNew_def)
  then show ?thesis
    unfolding bucket_pair_def using bucket_vec_new by blast
qed

lemma hashmap_new_inv:
  assumes "0 < ks" and "0 < vs"
    and "SUTL_InternalHashmapNew ks vs hash keycomp = Some (hm0, e0)"
  shows "hashmap_inv hm0"
  using assms
  by (auto simp: SUTL_InternalHashmapNew_def hashmap_inv_def bucket_pair_new
      split: Option.bind_splits)

lemma hashmap_step_inv:
  assumes inv: "hashmap_inv hm" and step: "hashmap_step hm c = Some hm'"
  shows "hashmap_inv hm'"
proof (cases c)
  case (CallInsert k v)
  then obtain pk pv p e where "store (ParamK hm) k = Some pk" "store (ParamV hm) v = Some pv"
    and ins: "SUTL_InternalHashmapInsert (hm\<lparr>ParamK := pk, ParamV := pv\<rparr>) = Some (p, hm', e)"
    using step by (auto simp: SUTLHashmapInsert_def split: Option.bind_splits)
  have "hashmap_inv (hm\<lparr>ParamK := pk, ParamV := pv\<rparr>)"
    by (rule hashmap_inv_same_buckets [OF inv]) simp_all
  then show ?thesis using ins by (rule hashmap_insert_inv)
next
  case (CallErase k)
  then obtain pk e where "store (ParamK hm) k = Some pk"
    and er: "SUTL_InternalHashmapErase (hm\<lparr>ParamK := pk\<rparr>) = Some (hm', e)"
    using step by (auto simp: SUTLHashmapErase_def split: Option.bind_splits)
  have "hashmap_inv (hm\<lparr>ParamK := pk\<rparr>)"
    by (rule hashmap_inv_same_buckets [OF inv]) simp_all
  then show ?thesis using er by (rule hashmap_erase_inv)
next
  case (CallGet k)
  then obtain pk where "hm' = hm\<lparr>ParamK := pk\<rparr>"
    using step by (auto simp: SUTLHashmapGet_def split: Option.bind_splits)
  then show ?thesis
    by (intro hashmap_inv_same_buckets [OF inv]) simp_all
qed

lemma hashmap_run_inv:
  assumes "hashmap_inv hm" and "hashmap_run hm cs = Some hm'"
  shows "hashmap_inv hm'"
  using assms
proof (induction cs arbitrary: hm)
  case Nil
  then show ?case by simp
next
  case (Cons c cs)
  then obtain hm1 where "hashmap_step hm c = Some hm1" "hashmap_run hm1 cs = Some hm'"
    by (auto split: Option.bind_splits)
  then show ?case using Cons.IH Cons.prems(1) hashmap_step_inv by blast
qed

lemma hashmap_inv_consistent:
  assumes inv: "hashmap_inv hm"
  shows "buckets_consistent hm"
  unfolding buckets_consistent_def
proof (intro allI impI)
  fix b assume b: "b < unat SUTL_HASHMAP_BUCKET_COUNT"
  let ?ks = "unat (KeySize hm)" and ?vs = "unat (ValueSize hm)"
  have ks0: "0 < ?ks" and vs0: "0 < ?vs"
    using inv by (simp_all add: hashmap_inv_def word_less_nat_alt)
  have "bucket_pair ?ks ?vs (Keys hm ! b) (Values hm ! b)"
    using inv b by (simp add: hashmap_inv_def)
  then obtain n where n: "unat (SUTLVectorSize (Keys hm ! b)) = n * ?ks"
    "unat (SUTLVectorSize (Values hm ! b)) = n * ?vs"
    unfolding bucket_pair_def by blast
  have "unat (SUTLVectorSize (Keys hm ! b) div KeySize hm) = n"
    using n(1) ks0 by (simp add: unat_div)
  moreover have "unat (SUTLVectorSize (Values hm ! b) div ValueSize hm) = n"
    using n(2) vs0 by (simp add: unat_div)
  ultimately show "SUTLVectorSize (Keys hm ! b) div KeySize hm
      = SUTLVectorSize (Values hm ! b) div ValueSize hm"
    by (simp add: word_unat_eq_iff)
qed

subsection \<open>Runs within defined behaviour\<close>

text \<open>
  For key and value types of at least one byte: after every sequence of \<open>Insert\<close>,
  \<open>Erase\<close> and \<open>Get\<close> calls that runs on a new map without undefined behaviour, every
  bucket has as many key entries as value entries.  The proof keeps, for every bucket,
  the invariant \<open>bucket_pair\<close>; it covers sizes that wrap (the copy that follows is then
  outside the block).  A scan of \<open>Erase\<close> that leaves the block ends these runs; the runs
  on the machine, below, go on.
\<close>

lemma bucket_consistency_defined_runs:
  assumes "0 < ks" and "0 < vs"
    and "SUTL_InternalHashmapNew ks vs hash keycomp = Some (hm0, e0)"
    and "hashmap_run hm0 calls = Some hm"
  shows "buckets_consistent hm"
  using assms hashmap_new_inv hashmap_run_inv hashmap_inv_consistent by blast

subsection \<open>Runs on the machine\<close>

declare SUTL_InternalHashmapInsert_loop_raw.simps [simp del]
declare SUTL_InternalHashmapErase_loop_raw.simps [simp del]
declare SUTL_InternalHashmapGet_loop_raw.simps [simp del]

text \<open>
  Where the strict read succeeds and finds written bytes, the read on the machine
  returns the same bytes; a compare function that is defined on every slot of bytes
  is defined on what the scan hands it.
\<close>

lemma raw_load_slot: "\<exists>s. length s = n \<and> raw_load env m off n = map Some s"
proof -
  let ?s = "map (\<lambda>p. case (if p < length m then m ! p else None) of Some b \<Rightarrow> b | None \<Rightarrow> env p)
          [off ..< off + n]"
  have "length ?s = n" by simp
  moreover have "raw_load env m off n = map Some ?s" by (simp only: raw_load_def)
  ultimately show ?thesis by blast
qed

lemma raw_load_agrees:
  assumes "load m off n = Some cs" and "None \<notin> set cs"
  shows "raw_load env m off n = cs"
proof -
  have b: "off + n \<le> length m" and cs: "cs = take n (drop off m)"
    using assms(1) by (auto simp: load_def split: if_splits)
  have len: "length cs = n" using b cs by simp
  show ?thesis
  proof (rule nth_equalityI)
    show "length (raw_load env m off n) = length cs"
      using len by (simp add: raw_load_def)
  next
    fix j assume "j < length (raw_load env m off n)"
    then have j: "j < n" by (simp add: raw_load_def)
    then have "cs ! j \<in> set cs" using len by simp
    then have "cs ! j \<noteq> None" using assms(2) by metis
    moreover have "cs ! j = m ! (off + j)" using cs j b by simp
    ultimately show "raw_load env m off n ! j = cs ! j"
      using j b by (auto simp: raw_load_def)
  qed
qed

text \<open>The bound on the table's size keeps every offset the scans and the vector
  functions compute inside the range of \<open>size_t\<close>.\<close>

lemma entry_bound:
  fixes a M ks vs B :: nat
  assumes "a \<le> M * ks" and "M * ks * (ks + vs) + 26 < B"
  shows "a * ks + 26 < B" and "a * vs + 26 < B"
proof -
  have "a * ks \<le> M * ks * ks" "a * vs \<le> M * ks * vs"
    using assms(1) by (simp_all only: mult_le_mono1)
  moreover have "M * ks * (ks + vs) = M * ks * ks + M * ks * vs"
    by (simp add: distrib_left)
  ultimately show "a * ks + 26 < B" and "a * vs + 26 < B"
    using assms(2) by linarith+
qed

lemma count_bound:
  fixes n M ks vs B :: nat
  assumes "n \<le> M" and "0 < ks" and "M * ks * (ks + vs) + 26 < B"
  shows "n * ks + 26 < B" and "n * vs + 26 < B"
proof -
  have "n \<le> M * ks" using assms(1,2)
    by (metis One_nat_def Suc_leI mult.right_neutral mult_le_mono)
  from entry_bound [OF this assms(3)] have "n * ks + 26 < B" "n * vs + 26 < B" .
  then show "n * ks + 26 < B" and "n * vs + 26 < B" by simp_all
qed

text \<open>The vector functions return on a bucket: a push into a bucket that fits, an
  erase of a live entry, and an erase that starts at or past the end (it changes
  nothing).\<close>

lemma pushn_total:
  assumes bv: "bucket_vec v"
    and fit: "unat (SUTLVectorSize v) \<le> length (Data v)"
    and small: "unat (SUTLVectorSize v) + unat c + 26 < 2 ^ 64"
    and src: "unat c \<le> length ptr"
  shows "\<exists>p v' e. SUTLVectorPushN v ptr c = Some (p, v', e)"
proof -
  let ?S = "unat (SUTLVectorSize v)" and ?c = "unat c" and ?L = "length (Data v)"
  have es: "SUTLVectorElemsize v = 1" and L: "?L = unat (SUTLVectorCapacity v)"
    using bv by (simp_all add: bucket_vec_def)
  have s: "unat (SUTLVectorSize v + c) = ?S + ?c"
    using small by (simp add: unat_add_nowrap)
  have s2: "unat (SUTLVectorSize v + c + 2) = ?S + ?c + 2"
    using small s by (simp add: unat_add_nowrap)
  have r: "unat (24 + (SUTLVectorSize v + c + 2)) = ?S + ?c + 26"
    using small s2 by (simp add: unat_add_nowrap)
  have ge: "\<not> SUTLVectorSize v + c + 2 < SUTLVectorSize v"
    using s2 by (simp add: word_less_nat_alt)
  obtain v1 e where rs: "SUTL_InternalVectorResize v (SUTLVectorSize v + c) = Some (v1, e)"
    and es1: "SUTLVectorElemsize v1 = 1" and len1: "?S + ?c \<le> length (Data v1)"
  proof (cases "SUTLVectorSize v < SUTLVectorSize v + c \<and> SUTLVectorCapacity v < SUTLVectorSize v + c")
    case True
    then have "SUTL_InternalVectorResize v (SUTLVectorSize v + c)
      = Some (v\<lparr>Data := SHRN_REALLOC (Data v) (?S + ?c + 2), SUTLVectorCapacity := SUTLVectorSize v + c + 2,
                 SUTLVectorSize := SUTLVectorSize v + c\<rparr>, [])"
      using ge r es by (simp add: SUTL_InternalVectorResize_def SUTL_InternalVectorReserve_def Let_def)
    then show ?thesis using that es by (simp add: realloc_length)
  next
    case False
    then have rs: "SUTL_InternalVectorResize v (SUTLVectorSize v + c)
      = Some (v\<lparr>SUTLVectorSize := SUTLVectorSize v + c\<rparr>, [])"
      by (auto simp add: SUTL_InternalVectorResize_def)
    have "?S + ?c \<le> ?L"
      using False s fit L by (auto simp: word_less_nat_alt)
    then show ?thesis using that rs es by simp
  qed
  have "\<not> SUTLVectorSize v > SUTLVectorSize v" by simp
  then show ?thesis
    using rs es1 len1 src
    by (simp add: SUTLVectorPushN_def SUTL_InternalVectorInsertN_def SUTLVectorOffset_def
        SHRN_MEMCPY_def Let_def)
qed

lemma erasen_past:
  assumes "SUTLVectorSize v \<le> at" and "unat at + unat c < 2 ^ 64"
  shows "\<exists>e. SUTL_InternalVectorEraseN v at c = Some (v, e)"
proof (cases "SUTLVectorSize v < at")
  case True
  then show ?thesis
    using vector_erase_rejected_without_wrap [OF True assms(2)] by simp
next
  case False
  then have at: "at = SUTLVectorSize v" using assms(1) by simp
  have "unat (at + c) = unat at + unat c"
    using assms(2) by (rule unat_add_nowrap)
  then have "at + c > SUTLVectorSize v \<or> c = 0"
    using at by (auto simp: word_less_nat_alt unat_gt_0)
  then show ?thesis
    using at by (auto simp: SUTL_InternalVectorEraseN_def Let_def)
qed

lemma erasen_entry_total:
  assumes bv: "bucket_vec v"
    and le: "unat at + unat c \<le> unat (SUTLVectorSize v)"
    and fit: "unat (SUTLVectorSize v) \<le> length (Data v)"
  shows "\<exists>v' e. SUTL_InternalVectorEraseN v at c = Some (v', e)"
proof -
  have sum: "unat (at + c) = unat at + unat c"
    using le unat_size_t_bound [of "SUTLVectorSize v"] by (simp add: unat_add_nowrap)
  have ngt: "\<not> at + c > SUTLVectorSize v"
    using sum le by (simp add: word_less_nat_alt)
  have es: "SUTLVectorElemsize v = 1"
    using bv by (simp add: bucket_vec_def)
  have "c \<le> SUTLVectorSize v"
    using le by (simp add: word_le_nat_alt)
  then have sub: "unat (SUTLVectorSize v - c) = unat (SUTLVectorSize v) - unat c"
    by (rule unat_sub)
  have "at \<le> SUTLVectorSize v - c"
    using le sub by (simp add: word_le_nat_alt)
  then have sub2: "unat (SUTLVectorSize v - c - at) = unat (SUTLVectorSize v) - unat c - unat at"
    using sub by (simp add: unat_sub)
  have "unat (SUTLVectorSize v) - unat c \<le> length (Data v)"
    using fit by simp
  then show ?thesis
    using ngt es sum sub2 le fit
    by (simp add: SUTL_InternalVectorEraseN_def Let_def SHRN_MEMMOVE_def SUTLVectorOffset_def)
qed


lemma compare_defined:
  assumes "\<forall>s. length s = n \<longrightarrow> keycomp k (map Some s) \<noteq> None"
  shows "\<exists>c. keycomp k (raw_load env m off n) = Some c"
  using assms raw_load_slot [of n env m off] by force

text \<open>The scans of \<open>Insert\<close> and \<open>Get\<close> return.\<close>

lemma insert_loop_raw_total:
  assumes "load (Data (ParamK hm)) 0 (unat (KeySize hm)) = Some k"
    and "\<forall>s. length s = unat (KeySize hm) \<longrightarrow> KeyComp hm k (map Some s) \<noteq> None"
  shows "\<exists>r. SUTL_InternalHashmapInsert_loop_raw env hm idx i val = Some r"
  using assms
proof (induction env hm idx i val rule: SUTL_InternalHashmapInsert_loop_raw.induct)
  case (1 env hm index i val)
  show ?case
  proof (cases "i < SUTLVectorSize (Keys hm ! index) div KeySize hm")
    case False
    then show ?thesis
      by (simp add: SUTL_InternalHashmapInsert_loop_raw.simps [of env hm index i val])
  next
    case True
    obtain c where c: "KeyComp hm k
        (raw_load env (Data (Keys hm ! index)) (unat (i * KeySize hm)) (unat (KeySize hm))) = Some c"
      using "1.prems"(2)
        compare_defined [where keycomp = "KeyComp hm" and k = k and n = "unat (KeySize hm)"]
      by blast
    from "1.IH" [OF True "1.prems"(1) c "1.prems"] obtain r where
      "SUTL_InternalHashmapInsert_loop_raw env hm index (i + 1)
         (if c \<noteq> 0 then Some (index, unat (i * KeySize hm)) else val) = Some r"
      by blast
    then show ?thesis
      using True c "1.prems"(1)
      by (simp add: SUTL_InternalHashmapInsert_loop_raw.simps [of env hm index i val])
  qed
qed

lemma get_loop_raw_total:
  assumes "load (Data (ParamK hm)) 0 (unat (KeySize hm)) = Some k"
    and "\<forall>s. length s = unat (KeySize hm) \<longrightarrow> KeyComp hm k (map Some s) \<noteq> None"
  shows "\<exists>r. SUTL_InternalHashmapGet_loop_raw env hm idx i = Some r"
  using assms
proof (induction env hm idx i rule: SUTL_InternalHashmapGet_loop_raw.induct)
  case (1 env hm index i)
  show ?case
  proof (cases "i < SUTLVectorSize (Keys hm ! index) div KeySize hm")
    case False
    then show ?thesis
      by (simp add: SUTL_InternalHashmapGet_loop_raw.simps [of env hm index i])
  next
    case True
    obtain c where c: "KeyComp hm k
        (raw_load env (Data (Keys hm ! index)) (unat (i * KeySize hm)) (unat (KeySize hm))) = Some c"
      using "1.prems"(2)
        compare_defined [where keycomp = "KeyComp hm" and k = k and n = "unat (KeySize hm)"]
      by blast
    show ?thesis
    proof (cases "c = 0")
      case False
      then show ?thesis
        using True c "1.prems"(1)
        by (simp add: SUTL_InternalHashmapGet_loop_raw.simps [of env hm index i])
    next
      case c0: True
      from "1.IH" [OF True "1.prems"(1) c _ "1.prems"] c0 obtain r where
        "SUTL_InternalHashmapGet_loop_raw env hm index (i + 1) = Some r"
        by blast
      then show ?thesis
        using True c c0 "1.prems"(1)
        by (simp add: SUTL_InternalHashmapGet_loop_raw.simps [of env hm index i])
    qed
  qed
qed

text \<open>The invariant \<open>table_inv\<close> is kept by every call, and every call returns.  In the
  scan of \<open>Erase\<close> a match at an index below the entry count removes that entry from both
  vectors; a match at an index from the entry count on, which the byte-count bound of
  the scan allows, starts at or past the end of both vectors and removes nothing.\<close>

lemma bucket_ok_mono:
  assumes "bucket_ok ks vs M kv vv" and "M \<le> M'"
  shows "bucket_ok ks vs M' kv vv"
  using assms unfolding bucket_ok_def by (meson le_trans)

lemma table_inv_mono:
  assumes "table_inv ks vs hash keycomp M hm" and "M \<le> M'"
  shows "table_inv ks vs hash keycomp M' hm"
  using assms unfolding table_inv_def by (meson bucket_ok_mono)

lemma table_inv_update:
  assumes inv: "table_inv ks vs hash keycomp M hm"
    and idx: "idx < unat SUTL_HASHMAP_BUCKET_COUNT"
    and bp: "bucket_ok (unat ks) (unat vs) M kv vv"
    and f: "KeySize hm' = KeySize hm" "ValueSize hm' = ValueSize hm"
      "Hash hm' = Hash hm" "KeyComp hm' = KeyComp hm"
      "length (Data (ParamK hm')) = length (Data (ParamK hm))"
      "length (Data (ParamV hm')) = length (Data (ParamV hm))"
      "Keys hm' = (Keys hm)[idx := kv]" "Values hm' = (Values hm)[idx := vv]"
  shows "table_inv ks vs hash keycomp M hm'"
  using inv idx bp f
  by (auto simp: table_inv_def nth_list_update)

lemma table_inv_same_buckets:
  assumes inv: "table_inv ks vs hash keycomp M hm"
    and f: "KeySize hm' = KeySize hm" "ValueSize hm' = ValueSize hm"
      "Hash hm' = Hash hm" "KeyComp hm' = KeyComp hm"
      "length (Data (ParamK hm')) = length (Data (ParamK hm))"
      "length (Data (ParamV hm')) = length (Data (ParamV hm))"
      "Keys hm' = Keys hm" "Values hm' = Values hm"
  shows "table_inv ks vs hash keycomp M hm'"
  using inv f by (simp add: table_inv_def)

lemma store_scratch:
  assumes "length x \<le> length (Data v)"
  shows "\<exists>v'. store v x = Some v' \<and> length (Data v') = length (Data v)
    \<and> load (Data v') 0 (length x) = Some x"
  using assms by (simp add: store_def SHRN_MEMCPY_def load_def)


lemma bucket_ok_push:
  assumes bp: "bucket_ok ks vs M kv0 vv0"
    and k: "bucket_vec kv" "unat (SUTLVectorSize kv) = unat (SUTLVectorSize kv0) + ks"
      "unat (SUTLVectorSize kv) \<le> length (Data kv)"
    and v: "bucket_vec vv" "unat (SUTLVectorSize vv) = unat (SUTLVectorSize vv0) + vs"
      "unat (SUTLVectorSize vv) \<le> length (Data vv)"
  shows "bucket_ok ks vs (Suc M) kv vv"
proof -
  obtain n where n: "n \<le> M" "unat (SUTLVectorSize kv0) = n * ks"
    "unat (SUTLVectorSize vv0) = n * vs"
    using bp unfolding bucket_ok_def by blast
  have "Suc n \<le> Suc M" "unat (SUTLVectorSize kv) = Suc n * ks"
    "unat (SUTLVectorSize vv) = Suc n * vs"
    "Suc n * ks \<le> length (Data kv)" "Suc n * vs \<le> length (Data vv)"
    using n k(2,3) v(2,3) by simp_all
  then show ?thesis
    unfolding bucket_ok_def using k(1) v(1) by blast
qed

lemma bucket_ok_erase:
  assumes bp: "bucket_ok ks vs M kv0 vv0"
    and k: "bucket_vec kv" "unat (SUTLVectorSize kv) = unat (SUTLVectorSize kv0) - ks"
      "length (Data kv) = length (Data kv0)"
    and v: "bucket_vec vv" "unat (SUTLVectorSize vv) = unat (SUTLVectorSize vv0) - vs"
      "length (Data vv) = length (Data vv0)"
    and pos: "0 < unat (SUTLVectorSize kv0)"
  shows "bucket_ok ks vs M kv vv"
proof -
  obtain n where n: "n \<le> M" "unat (SUTLVectorSize kv0) = n * ks"
    "unat (SUTLVectorSize vv0) = n * vs" "n * ks \<le> length (Data kv0)"
    "n * vs \<le> length (Data vv0)"
    using bp unfolding bucket_ok_def by blast
  have "0 < n" using pos n(2) by (cases n) simp_all
  then obtain n' where n': "n = Suc n'" by (cases n) simp_all
  have "n' \<le> M" "unat (SUTLVectorSize kv) = n' * ks" "unat (SUTLVectorSize vv) = n' * vs"
    "n' * ks \<le> length (Data kv)" "n' * vs \<le> length (Data vv)"
    using k(2,3) v(2,3) n n' by simp_all
  then show ?thesis
    unfolding bucket_ok_def using k(1) v(1) by blast
qed

lemma hashmap_insert_raw_inv:
  assumes inv: "table_inv ks vs hash keycomp M hm"
    and pos: "0 < ks"
    and k: "load (Data (ParamK hm)) 0 (unat ks) = Some k"
    and hk: "hash k \<noteq> None"
    and ck: "\<forall>s. length s = unat ks \<longrightarrow> keycomp k (map Some s) \<noteq> None"
    and bound: "Suc M * unat ks * (unat ks + unat vs) + 26 < 2 ^ 64"
  shows "\<exists>p hm' e. SUTL_InternalHashmapInsert_raw env hm = Some (p, hm', e)
    \<and> table_inv ks vs hash keycomp (Suc M) hm'"
proof -
  have f: "KeySize hm = ks" "ValueSize hm = vs" "Hash hm = hash" "KeyComp hm = keycomp"
    and pl: "unat ks \<le> length (Data (ParamK hm))" "unat vs \<le> length (Data (ParamV hm))"
    using inv by (simp_all add: table_inv_def)
  obtain h where h: "Hash hm k = Some h"
    using hk f(3) by auto
  define idx where "idx = unat (h mod SUTL_HASHMAP_BUCKET_COUNT)"
  have idx: "idx < unat SUTL_HASHMAP_BUCKET_COUNT"
    unfolding idx_def by (rule bucket_index_in_range)
  define hm1 where "hm1 = hm\<lparr>Size := Size hm + 1\<rparr>"
  have f1: "KeySize hm1 = ks" "ValueSize hm1 = vs" "KeyComp hm1 = keycomp"
    "ParamK hm1 = ParamK hm" "ParamV hm1 = ParamV hm" "Keys hm1 = Keys hm" "Values hm1 = Values hm"
    using f by (simp_all add: hm1_def)
  have inv1: "table_inv ks vs hash keycomp M hm1"
    by (rule table_inv_same_buckets [OF inv]) (simp_all add: hm1_def)
  have ks0: "KeySize hm1 \<noteq> 0" "0 < unat ks"
    using pos f1(1) by (simp_all add: unat_gt_0)
  obtain val where loop: "SUTL_InternalHashmapInsert_loop_raw env hm1 idx 0 None = Some val"
    using insert_loop_raw_total [of hm1 k env idx 0 None] k ck f1 by auto
  show ?thesis
  proof (cases val)
    case (Some p)
    then have "SUTL_InternalHashmapInsert_raw env hm = Some (Some p, hm1, [])"
      using k h loop ks0 f
      by (simp add: SUTL_InternalHashmapInsert_raw_def Let_def idx_def [symmetric] hm1_def [symmetric])
    moreover have "table_inv ks vs hash keycomp (Suc M) hm1"
      by (rule table_inv_mono [OF inv1]) simp
    ultimately show ?thesis by blast
  next
    case None
    let ?KV = "Keys hm ! idx" and ?VV = "Values hm ! idx"
    have bp: "bucket_ok (unat ks) (unat vs) M ?KV ?VV"
      using inv idx by (simp add: table_inv_def)
    then have bv: "bucket_vec ?KV" "bucket_vec ?VV"
      by (simp_all add: bucket_ok_def)
    obtain n where n: "n \<le> M" "unat (SUTLVectorSize ?KV) = n * unat ks"
      "unat (SUTLVectorSize ?VV) = n * unat vs" "n * unat ks \<le> length (Data ?KV)"
      "n * unat vs \<le> length (Data ?VV)"
      using bp unfolding bucket_ok_def by blast
    have "Suc n \<le> Suc M" using n(1) by simp
    note cb = count_bound [OF this ks0(2) bound]
    have smallk: "unat (SUTLVectorSize ?KV) + unat ks + 26 < 2 ^ 64"
      and smallv: "unat (SUTLVectorSize ?VV) + unat vs + 26 < 2 ^ 64"
      using cb n(2,3) by simp_all
    obtain pk kv e1 where pk: "SUTLVectorPushN ?KV (Data (ParamK hm)) ks = Some (pk, kv, e1)"
      using pushn_total [OF bv(1) _ smallk pl(1)] n(2,4) by auto
    obtain pv vv e2 where pv: "SUTLVectorPushN ?VV (Data (ParamV hm)) vs = Some (pv, vv, e2)"
      using pushn_total [OF bv(2) _ smallv pl(2)] n(3,5) by auto
    define hm' where "hm' = hm1\<lparr>Keys := (Keys hm)[idx := kv], Values := (Values hm)[idx := vv]\<rparr>"
    have lk: "length (Keys hm) = unat SUTL_HASHMAP_BUCKET_COUNT"
      using inv by (simp add: table_inv_def)
    have "SUTL_InternalHashmapInsert_raw env hm = Some (map_option (Pair idx) pv, hm', e1 @ e2)"
      using k h loop ks0 f f1 None pk pv idx lk
      by (simp add: SUTL_InternalHashmapInsert_raw_def Let_def idx_def [symmetric]
          hm1_def [symmetric] hm'_def)
    moreover have "table_inv ks vs hash keycomp (Suc M) hm'"
    proof (rule table_inv_update [OF table_inv_mono [OF inv] idx])
      show "M \<le> Suc M" by simp
      note a = pushn_bucket [OF bv(1) pk] and b = pushn_bucket [OF bv(2) pv]
      show "bucket_ok (unat ks) (unat vs) (Suc M) kv vv"
        using a b by (intro bucket_ok_push [OF bp]) simp_all
    qed (simp_all add: hm'_def hm1_def)
    ultimately show ?thesis by blast
  qed
qed


lemma hashmap_erase_loop_raw_inv:
  assumes "table_inv ks vs hash keycomp M hm" and "idx < unat SUTL_HASHMAP_BUCKET_COUNT"
    and "load (Data (ParamK hm)) 0 (unat ks) = Some k"
    and "\<forall>s. length s = unat ks \<longrightarrow> keycomp k (map Some s) \<noteq> None"
    and "M * unat ks * (unat ks + unat vs) + 26 < 2 ^ 64"
  shows "\<exists>hm' e. SUTL_InternalHashmapErase_loop_raw env hm idx i = Some (hm', e)
    \<and> table_inv ks vs hash keycomp M hm'"
  using assms
proof (induction env hm idx i rule: SUTL_InternalHashmapErase_loop_raw.induct)
  case (1 env hm index i)
  let ?KV = "Keys hm ! index" and ?VV = "Values hm ! index"
  note inv = \<open>table_inv ks vs hash keycomp M hm\<close>
    and idx = \<open>index < unat SUTL_HASHMAP_BUCKET_COUNT\<close>
    and k = \<open>load (Data (ParamK hm)) 0 (unat ks) = Some k\<close>
    and ck = \<open>\<forall>s. length s = unat ks \<longrightarrow> keycomp k (map Some s) \<noteq> None\<close>
    and bound = \<open>M * unat ks * (unat ks + unat vs) + 26 < 2 ^ 64\<close>
  have f: "KeySize hm = ks" "ValueSize hm = vs" "KeyComp hm = keycomp"
    using inv by (simp_all add: table_inv_def)
  show ?case
  proof (cases "i < SUTLVectorSize ?KV")
    case False
    then have "SUTL_InternalHashmapErase_loop_raw env hm index i = Some (hm, [])"
      by (simp add: SUTL_InternalHashmapErase_loop_raw.simps [of env hm index i])
    then show ?thesis using inv by blast
  next
    case True
    obtain c where c: "keycomp k
        (raw_load env (Data ?KV) (unat (i * ks)) (unat ks)) = Some c"
      using ck compare_defined [where keycomp = keycomp and k = k and n = "unat ks"]
      by blast
    show ?thesis
    proof (cases "c = 0")
      case c0: True
      have "\<exists>hm' e. SUTL_InternalHashmapErase_loop_raw env hm index (i + 1) = Some (hm', e)
        \<and> table_inv ks vs hash keycomp M hm'"
        using "1.IH" [OF True _ _ _ inv idx k ck bound] k c c0 f by simp
      then show ?thesis
        using True k c c0 f
        by (simp add: SUTL_InternalHashmapErase_loop_raw.simps [of env hm index i])
    next
      case c1: False
      have bp: "bucket_ok (unat ks) (unat vs) M ?KV ?VV"
        using inv idx by (simp add: table_inv_def)
      then have bv: "bucket_vec ?KV" "bucket_vec ?VV"
        by (simp_all add: bucket_ok_def)
      obtain n where n: "n \<le> M" "unat (SUTLVectorSize ?KV) = n * unat ks"
        "unat (SUTLVectorSize ?VV) = n * unat vs" "n * unat ks \<le> length (Data ?KV)"
        "n * unat vs \<le> length (Data ?VV)"
        using bp unfolding bucket_ok_def by blast
      have ui: "unat i < n * unat ks"
        using True n(2) by (simp add: word_less_nat_alt)
      have "n * unat ks \<le> M * unat ks"
        using n(1) by (simp only: mult_le_mono1)
      then have "Suc (unat i) \<le> M * unat ks"
        using ui by linarith
      note eb = entry_bound [OF this bound]
      have suc: "Suc (unat i) * unat ks = unat i * unat ks + unat ks"
        "Suc (unat i) * unat vs = unat i * unat vs + unat vs"
        by simp_all
      have ak: "unat (i * ks) = unat i * unat ks" and av: "unat (i * vs) = unat i * unat vs"
        using eb suc by (simp_all add: unat_mult_nowrap)
      have sk: "unat (i * ks) + unat ks < 2 ^ 64" and sv: "unat (i * vs) + unat vs < 2 ^ 64"
        using eb suc ak av by simp_all
      have "\<exists>kv vv e1 e2.
          SUTL_InternalVectorEraseN ?KV (i * ks) ks = Some (kv, e1)
          \<and> SUTL_InternalVectorEraseN ?VV (i * vs) vs = Some (vv, e2)
          \<and> bucket_ok (unat ks) (unat vs) M kv vv"
      proof (cases "unat i < n")
        case True
        then have "Suc (unat i) \<le> n" by simp
        then have "Suc (unat i) * unat ks \<le> n * unat ks" "Suc (unat i) * unat vs \<le> n * unat vs"
          by (simp_all only: mult_le_mono1)
        then have lek: "unat (i * ks) + unat ks \<le> unat (SUTLVectorSize ?KV)"
          and lev: "unat (i * vs) + unat vs \<le> unat (SUTLVectorSize ?VV)"
          using suc ak av n(2,3) by simp_all
        obtain kv e1 where kv: "SUTL_InternalVectorEraseN ?KV (i * ks) ks = Some (kv, e1)"
          using erasen_entry_total [OF bv(1) lek] n(2,4) by auto
        obtain vv e2 where vv: "SUTL_InternalVectorEraseN ?VV (i * vs) vs = Some (vv, e2)"
          using erasen_entry_total [OF bv(2) lev] n(3,5) by auto
        note a = erasen_entry [OF bv(1) lek kv] and b = erasen_entry [OF bv(2) lev vv]
        from ui have "0 < n * unat ks" by linarith
        then have "0 < unat (SUTLVectorSize ?KV)"
          by (simp only: n(2))
        then have "bucket_ok (unat ks) (unat vs) M kv vv"
          using a b by (intro bucket_ok_erase [OF bp]) simp_all
        then show ?thesis using kv vv by blast
      next
        case False
        then have "n \<le> unat i" by simp
        then have "n * unat ks \<le> unat i * unat ks" "n * unat vs \<le> unat i * unat vs"
          by (simp_all only: mult_le_mono1)
        then have gek: "SUTLVectorSize ?KV \<le> i * ks" and gev: "SUTLVectorSize ?VV \<le> i * vs"
          using ak av n(2,3) by (simp_all add: word_le_nat_alt)
        from erasen_past [OF gek sk] erasen_past [OF gev sv] bp show ?thesis
          by blast
      qed
      then obtain kv vv e1 e2 where
        kv: "SUTL_InternalVectorEraseN ?KV (i * ks) ks = Some (kv, e1)"
        and vv: "SUTL_InternalVectorEraseN ?VV (i * vs) vs = Some (vv, e2)"
        and bp': "bucket_ok (unat ks) (unat vs) M kv vv"
        by blast
      define hm' where "hm' = hm\<lparr>Keys := (Keys hm)[index := kv],
        Values := (Values hm)[index := vv], Size := Size hm - 1\<rparr>"
      have "SUTL_InternalHashmapErase_loop_raw env hm index i = Some (hm', e1 @ e2)"
        using True k c c1 f kv vv
        by (simp add: SUTL_InternalHashmapErase_loop_raw.simps [of env hm index i] hm'_def)
      moreover have "table_inv ks vs hash keycomp M hm'"
        by (rule table_inv_update [OF inv idx bp']) (simp_all add: hm'_def)
      ultimately show ?thesis by blast
    qed
  qed
qed

lemma hashmap_erase_raw_inv:
  assumes inv: "table_inv ks vs hash keycomp M hm"
    and k: "load (Data (ParamK hm)) 0 (unat ks) = Some k"
    and hk: "hash k \<noteq> None"
    and ck: "\<forall>s. length s = unat ks \<longrightarrow> keycomp k (map Some s) \<noteq> None"
    and bound: "M * unat ks * (unat ks + unat vs) + 26 < 2 ^ 64"
  shows "\<exists>hm' e. SUTL_InternalHashmapErase_raw env hm = Some (hm', e)
    \<and> table_inv ks vs hash keycomp M hm'"
proof -
  have f: "KeySize hm = ks" "Hash hm = hash"
    using inv by (simp_all add: table_inv_def)
  obtain h where h: "Hash hm k = Some h"
    using hk f(2) by auto
  have "\<exists>hm' e. SUTL_InternalHashmapErase_loop_raw env hm
        (unat (h mod SUTL_HASHMAP_BUCKET_COUNT)) 0 = Some (hm', e)
      \<and> table_inv ks vs hash keycomp M hm'"
    by (rule hashmap_erase_loop_raw_inv [OF inv bucket_index_in_range k ck bound])
  then show ?thesis
    using k h f by (simp add: SUTL_InternalHashmapErase_raw_def Let_def)
qed

lemma hashmap_get_raw_total:
  assumes inv: "table_inv ks vs hash keycomp M hm"
    and pos: "0 < ks"
    and k: "load (Data (ParamK hm)) 0 (unat ks) = Some k"
    and hk: "hash k \<noteq> None"
    and ck: "\<forall>s. length s = unat ks \<longrightarrow> keycomp k (map Some s) \<noteq> None"
  shows "\<exists>p. SUTL_InternalHashmapGet_raw env hm = Some p"
proof -
  have f: "KeySize hm = ks" "Hash hm = hash" "KeyComp hm = keycomp"
    using inv by (simp_all add: table_inv_def)
  obtain h where h: "Hash hm k = Some h"
    using hk f(2) by auto
  obtain p where "SUTL_InternalHashmapGet_loop_raw env hm (unat (h mod SUTL_HASHMAP_BUCKET_COUNT)) 0 = Some p"
    using get_loop_raw_total [of hm k env _ 0] k ck f by blast
  then show ?thesis
    using k h f pos by (simp add: SUTL_InternalHashmapGet_raw_def Let_def)
qed

lemma hashmap_step_raw_inv:
  assumes inv: "table_inv ks vs hash keycomp M hm"
    and pos: "0 < ks"
    and ok: "call_ok ks vs hash keycomp c"
    and bound: "Suc M * unat ks * (unat ks + unat vs) + 26 < 2 ^ 64"
  shows "\<exists>hm'. hashmap_step_raw hm (env, c) = Some hm' \<and> table_inv ks vs hash keycomp (Suc M) hm'"
proof -
  have pl: "unat ks \<le> length (Data (ParamK hm))" "unat vs \<le> length (Data (ParamV hm))"
    using inv by (simp_all add: table_inv_def)
  have "M * unat ks * (unat ks + unat vs) \<le> Suc M * unat ks * (unat ks + unat vs)"
    by (simp only: mult_le_mono1 le_SucI [OF le_refl])
  then have boundM: "M * unat ks * (unat ks + unat vs) + 26 < 2 ^ 64"
    using bound by linarith
  show ?thesis
  proof (cases c)
    case (CallInsert k v)
    then have kok: "length k = unat ks" "hash k \<noteq> None"
      "\<forall>s. length s = unat ks \<longrightarrow> keycomp k (map Some s) \<noteq> None" and lv: "length v = unat vs"
      using ok by (simp_all add: key_ok_def)
    obtain pk where pk: "store (ParamK hm) k = Some pk" "length (Data pk) = length (Data (ParamK hm))"
      "load (Data pk) 0 (unat ks) = Some k"
      using store_scratch [of k "ParamK hm"] kok(1) pl(1) by auto
    obtain pv where pv: "store (ParamV hm) v = Some pv" "length (Data pv) = length (Data (ParamV hm))"
      using store_scratch [of v "ParamV hm"] lv pl(2) by auto
    let ?hm = "hm\<lparr>ParamK := pk, ParamV := pv\<rparr>"
    have inv': "table_inv ks vs hash keycomp M ?hm"
      by (rule table_inv_same_buckets [OF inv]) (simp_all add: pk(2) pv(2))
    have "load (Data (ParamK ?hm)) 0 (unat ks) = Some k"
      using pk(3) by simp
    from hashmap_insert_raw_inv [OF inv' pos this kok(2,3) bound, of env]
    show ?thesis
      using CallInsert pk(1) pv(1) by (auto simp: SUTLHashmapInsert_raw_def)
  next
    case (CallErase k)
    then have kok: "length k = unat ks" "hash k \<noteq> None"
      "\<forall>s. length s = unat ks \<longrightarrow> keycomp k (map Some s) \<noteq> None"
      using ok by (simp_all add: key_ok_def)
    obtain pk where pk: "store (ParamK hm) k = Some pk" "length (Data pk) = length (Data (ParamK hm))"
      "load (Data pk) 0 (unat ks) = Some k"
      using store_scratch [of k "ParamK hm"] kok(1) pl(1) by auto
    let ?hm = "hm\<lparr>ParamK := pk\<rparr>"
    have inv': "table_inv ks vs hash keycomp M ?hm"
      by (rule table_inv_same_buckets [OF inv]) (simp_all add: pk(2))
    have "load (Data (ParamK ?hm)) 0 (unat ks) = Some k"
      using pk(3) by simp
    from hashmap_erase_raw_inv [OF inv' this kok(2,3) boundM, of env]
    obtain hm' e where "SUTL_InternalHashmapErase_raw env ?hm = Some (hm', e)"
      "table_inv ks vs hash keycomp M hm'"
      by blast
    then show ?thesis
      using CallErase pk(1) table_inv_mono [of ks vs hash keycomp M hm' "Suc M"]
      by (auto simp: SUTLHashmapErase_raw_def)
  next
    case (CallGet k)
    then have kok: "length k = unat ks" "hash k \<noteq> None"
      "\<forall>s. length s = unat ks \<longrightarrow> keycomp k (map Some s) \<noteq> None"
      using ok by (simp_all add: key_ok_def)
    obtain pk where pk: "store (ParamK hm) k = Some pk" "length (Data pk) = length (Data (ParamK hm))"
      "load (Data pk) 0 (unat ks) = Some k"
      using store_scratch [of k "ParamK hm"] kok(1) pl(1) by auto
    let ?hm = "hm\<lparr>ParamK := pk\<rparr>"
    have inv': "table_inv ks vs hash keycomp M ?hm"
      by (rule table_inv_same_buckets [OF inv]) (simp_all add: pk(2))
    have "load (Data (ParamK ?hm)) 0 (unat ks) = Some k"
      using pk(3) by simp
    from hashmap_get_raw_total [OF inv' pos this kok(2,3), of env]
    obtain p where "SUTL_InternalHashmapGet_raw env ?hm = Some p"
      by blast
    then show ?thesis
      using CallGet pk(1) table_inv_mono [OF inv', of "Suc M"]
      by (auto simp: SUTLHashmapGet_raw_def)
  qed
qed

lemma hashmap_run_raw_inv:
  assumes "table_inv ks vs hash keycomp M hm"
    and "0 < ks"
    and "list_all (call_ok ks vs hash keycomp) (map snd steps)"
    and "(M + length steps) * unat ks * (unat ks + unat vs) + 26 < 2 ^ 64"
  shows "\<exists>hm'. hashmap_run_raw hm steps = Some hm'
    \<and> table_inv ks vs hash keycomp (M + length steps) hm'"
  using assms
proof (induction steps arbitrary: M hm)
  case Nil
  then show ?case by simp
next
  case (Cons st steps)
  obtain env c where st: "st = (env, c)" by (cases st)
  have ok: "call_ok ks vs hash keycomp c"
    and oks: "list_all (call_ok ks vs hash keycomp) (map snd steps)"
    using Cons.prems(3) st by simp_all
  have "Suc M \<le> M + length (st # steps)" by simp
  then have "Suc M * unat ks * (unat ks + unat vs)
      \<le> (M + length (st # steps)) * unat ks * (unat ks + unat vs)"
    by (simp only: mult_le_mono1)
  then have b1: "Suc M * unat ks * (unat ks + unat vs) + 26 < 2 ^ 64"
    using Cons.prems(4) by linarith
  obtain hm1 where hm1: "hashmap_step_raw hm (env, c) = Some hm1"
    "table_inv ks vs hash keycomp (Suc M) hm1"
    using hashmap_step_raw_inv [OF Cons.prems(1,2) ok b1] by blast
  have b2: "(Suc M + length steps) * unat ks * (unat ks + unat vs) + 26 < 2 ^ 64"
    using Cons.prems(4) by simp
  obtain hm' where "hashmap_run_raw hm1 steps = Some hm'"
    "table_inv ks vs hash keycomp (Suc M + length steps) hm'"
    using Cons.IH [OF hm1(2) Cons.prems(2) oks b2] by blast
  then show ?case using hm1(1) st by simp
qed

lemma bucket_ok_new: "bucket_ok ks vs 0 (SUTL_InternalVectorNew 1) (SUTL_InternalVectorNew 1)"
  unfolding bucket_ok_def using bucket_vec_new by (simp add: SUTL_InternalVectorNew_def)

lemma hashmap_new_raw_inv:
  assumes "0 < ks" and "0 < vs" and "unat ks + 26 < 2 ^ 64" and "unat vs + 26 < 2 ^ 64"
  shows "\<exists>hm0. SUTL_InternalHashmapNew ks vs hash keycomp = Some (hm0, [])
    \<and> table_inv ks vs hash keycomp 0 hm0"
proof -
  have r: "SUTL_InternalVectorResize (SUTL_InternalVectorNew 1) sz
      = Some (SUTL_InternalVectorNew 1
          \<lparr>Data := SHRN_REALLOC [] (unat sz + 2), SUTLVectorCapacity := sz + 2, SUTLVectorSize := sz\<rparr>, [])"
    if "unat sz + 26 < 2 ^ 64" and "0 < sz" for sz :: size_t
  proof -
    have s2: "unat (sz + 2) = unat sz + 2"
      using that by (simp add: unat_add_nowrap)
    then have "unat (24 + (sz + 2)) = unat sz + 26"
      using that by (simp add: unat_add_nowrap)
    then show ?thesis
      using that(2)
      by (simp add: SUTL_InternalVectorResize_def SUTL_InternalVectorReserve_def
          SUTL_InternalVectorNew_def Let_def)
  qed
  define pk where "pk = SUTL_InternalVectorNew 1
    \<lparr>Data := SHRN_REALLOC [] (unat ks + 2), SUTLVectorCapacity := ks + 2, SUTLVectorSize := ks\<rparr>"
  define pv where "pv = SUTL_InternalVectorNew 1
    \<lparr>Data := SHRN_REALLOC [] (unat vs + 2), SUTLVectorCapacity := vs + 2, SUTLVectorSize := vs\<rparr>"
  define hm0 where "hm0 = \<lparr>Size = 0, KeySize = ks, ValueSize = vs, ParamK = pk, ParamV = pv,
    Keys = replicate (unat SUTL_HASHMAP_BUCKET_COUNT) (SUTL_InternalVectorNew 1),
    Values = replicate (unat SUTL_HASHMAP_BUCKET_COUNT) (SUTL_InternalVectorNew 1),
    Hash = hash, KeyComp = keycomp\<rparr>"
  have "SUTL_InternalHashmapNew ks vs hash keycomp = Some (hm0, [])"
    using r [OF assms(3,1)] r [OF assms(4,2)]
    by (simp add: SUTL_InternalHashmapNew_def hm0_def pk_def pv_def)
  moreover have "table_inv ks vs hash keycomp 0 hm0"
    by (simp add: table_inv_def hm0_def pk_def pv_def realloc_length bucket_ok_new)
  ultimately show ?thesis by blast
qed

lemma table_inv_consistent:
  assumes inv: "table_inv ks vs hash keycomp M hm" and ks0: "0 < ks" and vs0: "0 < vs"
  shows "buckets_consistent hm"
  unfolding buckets_consistent_def
proof (intro allI impI)
  fix b assume b: "b < unat SUTL_HASHMAP_BUCKET_COUNT"
  have f: "KeySize hm = ks" "ValueSize hm = vs"
    using inv by (simp_all add: table_inv_def)
  have pos: "0 < unat ks" "0 < unat vs"
    using ks0 vs0 by (simp_all add: unat_gt_0)
  have "bucket_ok (unat ks) (unat vs) M (Keys hm ! b) (Values hm ! b)"
    using inv b by (simp add: table_inv_def)
  then obtain n where n: "unat (SUTLVectorSize (Keys hm ! b)) = n * unat ks"
    "unat (SUTLVectorSize (Values hm ! b)) = n * unat vs"
    unfolding bucket_ok_def by blast
  have "unat (SUTLVectorSize (Keys hm ! b) div KeySize hm) = n"
    using n(1) pos f by (simp add: unat_div)
  moreover have "unat (SUTLVectorSize (Values hm ! b) div ValueSize hm) = n"
    using n(2) pos f by (simp add: unat_div)
  ultimately show "SUTLVectorSize (Keys hm ! b) div KeySize hm
      = SUTLVectorSize (Values hm ! b) div ValueSize hm"
    by (simp add: word_unat_eq_iff)
qed

text \<open>
  Claim C5.  For key and value types of at least one byte, every finite sequence of
  \<open>Insert\<close>, \<open>Erase\<close> and \<open>Get\<close> calls on a new map runs to its end on the machine and
  leaves every bucket with as many key entries as value entries
  (\<open>SUTLVectorSize(Keys[b]) / KeySize = SUTLVectorSize(Values[b]) / ValueSize\<close>), whatever
  bytes the scans find at offsets the program never wrote.  The calls are well-formed
  (\<open>call_ok\<close>: arguments of the table's key and value sizes, hash and compare functions
  defined on them), allocation succeeds, and the sequence is short enough for the table
  to stay inside the range of \<open>size_t\<close>:
  \<open>(length + 1) * KeySize * (KeySize + ValueSize) + 26 < 2 ^ 64\<close>.  The runs include
  every \<open>Erase\<close> of an absent key from a non-empty bucket, whose scan goes past the live
  entries and past the block.
\<close>

theorem bucket_consistency_every_run:
  assumes ks0: "0 < ks" and vs0: "0 < vs"
    and ok: "list_all (call_ok ks vs hash keycomp) (map snd steps)"
    and bound: "(length steps + 1) * unat ks * (unat ks + unat vs) + 26 < 2 ^ 64"
  shows "\<exists>hm0 hm. SUTL_InternalHashmapNew ks vs hash keycomp = Some (hm0, [])
    \<and> hashmap_run_raw hm0 steps = Some hm \<and> buckets_consistent hm"
proof -
  have pos: "0 < unat ks" "0 < unat vs"
    using ks0 vs0 by (simp_all add: unat_gt_0)
  have "(1 :: nat) \<le> length steps + 1" "length steps \<le> length steps + 1"
    by simp_all
  from count_bound [OF this(1) pos(1) bound] count_bound [OF this(2) pos(1) bound]
  have b: "unat ks + 26 < 2 ^ 64" "unat vs + 26 < 2 ^ 64"
    "length steps * unat ks + 26 < (2 :: nat) ^ 64"
    by simp_all
  have "length steps * unat ks * (unat ks + unat vs)
      \<le> (length steps + 1) * unat ks * (unat ks + unat vs)"
    by (simp only: mult_le_mono1 le_add1)
  then have "length steps * unat ks * (unat ks + unat vs) + 26 < 2 ^ 64"
    using bound by linarith
  then have b0: "(0 + length steps) * unat ks * (unat ks + unat vs) + 26 < 2 ^ 64"
    by (simp only: add_0)
  obtain hm0 where new: "SUTL_InternalHashmapNew ks vs hash keycomp = Some (hm0, [])"
    and inv0: "table_inv ks vs hash keycomp 0 hm0"
    using hashmap_new_raw_inv [OF ks0 vs0 b(1,2)] by blast
  obtain hm where run: "hashmap_run_raw hm0 steps = Some hm"
    and inv: "table_inv ks vs hash keycomp (0 + length steps) hm"
    using hashmap_run_raw_inv [OF inv0 ks0 ok b0] by blast
  show ?thesis
    using new run table_inv_consistent [OF inv ks0 vs0] by blast
qed


text \<open>The catalogue functions for \<open>int\<close> keys are defined on every \<open>int\<close> object and every
  four bytes.  An absent key erased from a non-empty bucket of an \<open>int\<close> map leaves the
  map as it was; when the bytes behind the live entry happen to equal the key, the scan
  matches there: nothing is erased, \<open>Size\<close> drops to 0, and the bucket still holds one
  key and one value.\<close>

lemma those_map_Some: "those (map Some s) = Some s"
  by (induction s) simp_all

lemma int_object_length: "length (int_object x) = 4"
  by (simp add: int_object_def)

lemma int_key_ok: "key_ok 4 SUTLHash_int SUTLCmp_int (int_object x)"
  unfolding key_ok_def
proof (intro conjI allI impI)
  show "length (int_object x) = unat (4 :: size_t)"
    by (simp add: int_object_def)
  have "those (map Some [ucast x, ucast (drop_bit 8 x), ucast (drop_bit 16 x), ucast (drop_bit 24 x) :: byte])
      = Some [ucast x, ucast (drop_bit 8 x), ucast (drop_bit 16 x), ucast (drop_bit 24 x)]"
    by (rule those_map_Some)
  then have lv: "(load_value (int_object x) 0 4 :: 32 word option) \<noteq> None"
    by (simp add: load_value_def load_def int_object_def)
  then show "SUTLHash_int (int_object x) \<noteq> None"
    by (auto simp: SUTLHash_int_def split: Option.bind_splits)
  fix s :: "byte list" assume "length s = unat (4 :: size_t)"
  then have "length s = 4" by simp
  then have "(load_value (map Some s) 0 4 :: 32 word option) \<noteq> None"
    by (simp add: load_value_def load_def those_map_Some)
  then show "SUTLCmp_int (int_object x) (map Some s) \<noteq> None"
    using lv by (auto simp: SUTLCmp_int_def split: Option.bind_splits)
qed

lemma int_map_erase_absent_on_machine:
  "map_option (\<lambda>hm. (Size hm, SUTLVectorSize (Keys hm ! 25), SUTLVectorSize (Values hm ! 25)))
     (Option.bind (SUTL_InternalHashmapNew 4 4 SUTLHash_int SUTLCmp_int)
        (\<lambda>(hm0, e0). hashmap_run_raw hm0
           [(\<lambda>p. 0, CallInsert (int_object 25) (int_object 625)),
            (\<lambda>p. 0, CallErase (int_object 57))]))
   = Some (1, 4, 4)"
  by code_simp

lemma int_map_erase_stale_match_on_machine:
  "map_option (\<lambda>hm. (Size hm, SUTLVectorSize (Keys hm ! 25), SUTLVectorSize (Values hm ! 25)))
     (Option.bind (SUTL_InternalHashmapNew 4 4 SUTLHash_int SUTLCmp_int)
        (\<lambda>(hm0, e0). hashmap_run_raw hm0
           [(\<lambda>p. 0, CallInsert (int_object 25) (int_object 625)),
            (\<lambda>p. if p = 4 then 57 else 0, CallErase (int_object 57))]))
   = Some (0, 4, 4)"
  by code_simp

theorem bucket_consistency_every_run_witness:
  "0 < (4 :: size_t)
   \<and> list_all (call_ok 4 4 SUTLHash_int SUTLCmp_int)
       (map snd ([(\<lambda>p. 0, CallInsert (int_object 25) (int_object 625)),
          (\<lambda>p. 170, CallErase (int_object 57)),
          (\<lambda>p. 0, CallInsert (int_object 57) (int_object 1)),
          (\<lambda>p. 0, CallGet (int_object 25)),
          (\<lambda>p. 0, CallErase (int_object 57)),
          (\<lambda>p. if p = 4 then 57 else 0, CallErase (int_object 57)),
          (\<lambda>p. 255, CallErase (int_object 89)),
          (\<lambda>p. 0, CallInsert (int_object 7) (int_object 49))]
          :: ((nat \<Rightarrow> byte) \<times> hashmap_call) list))
   \<and> (\<exists>hm0 hm. SUTL_InternalHashmapNew 4 4 SUTLHash_int SUTLCmp_int = Some (hm0, [])
        \<and> hashmap_run_raw hm0
            [(\<lambda>p. 0, CallInsert (int_object 25) (int_object 625)),
             (\<lambda>p. 170, CallErase (int_object 57)),
             (\<lambda>p. 0, CallInsert (int_object 57) (int_object 1)),
             (\<lambda>p. 0, CallGet (int_object 25)),
             (\<lambda>p. 0, CallErase (int_object 57)),
             (\<lambda>p. if p = 4 then 57 else 0, CallErase (int_object 57)),
             (\<lambda>p. 255, CallErase (int_object 89)),
             (\<lambda>p. 0, CallInsert (int_object 7) (int_object 49))] = Some hm
        \<and> buckets_consistent hm)"
proof -
  let ?steps = "[(\<lambda>p. 0, CallInsert (int_object 25) (int_object 625)),
             (\<lambda>p. 170, CallErase (int_object 57)),
             (\<lambda>p. 0, CallInsert (int_object 57) (int_object 1)),
             (\<lambda>p. 0, CallGet (int_object 25)),
             (\<lambda>p. 0, CallErase (int_object 57)),
             (\<lambda>p. if p = 4 then 57 else 0, CallErase (int_object 57)),
             (\<lambda>p. 255, CallErase (int_object 89)),
             (\<lambda>p. 0, CallInsert (int_object 7) (int_object 49))]
      :: ((nat \<Rightarrow> byte) \<times> hashmap_call) list"
  have pos: "0 < (4 :: size_t)" by simp
  have ok: "list_all (call_ok 4 4 SUTLHash_int SUTLCmp_int) (map snd ?steps)"
    by (simp add: int_key_ok int_object_length)
  have bound: "(length ?steps + 1) * unat (4 :: size_t) * (unat (4 :: size_t) + unat (4 :: size_t)) + 26
      < 2 ^ 64"
    by simp
  from pos ok bucket_consistency_every_run [OF pos pos ok bound] show ?thesis
    by blast
qed

end
